theory Spec2Isabelle
  imports
    Main
    "HOL-Library.AList"
    "HOL-Library.Char_ord"
    "HOL-Library.List_Lexorder"
begin

section \<open>Python values used by the converter\<close>

text \<open>
  A Python \<open>dict\<close> keeps its keys in insertion order, and \<open>json.dump\<close> writes them in
  that order, so a dictionary is an association list. \<open>d[k] = v\<close> replaces the value of
  an existing key where it stands and appends a new key at the end; that is
  \<open>AList.update\<close>. \<open>k in d\<close> and \<open>d[k]\<close> are \<open>map_of\<close>. Strings are byte strings in
  UTF-8: the separators the code looks for are ASCII, and the byte-wise lexicographic
  order of UTF-8 strings is the order of their code points, which is the order Python's
  \<open>sorted\<close> uses.
\<close>

type_synonym ('k, 'v) dict = "('k \<times> 'v) list"

definition dict_update :: "('k, 'v) dict \<Rightarrow> ('k, 'v) dict \<Rightarrow> ('k, 'v) dict" where
  \<comment> \<open>\<open>d.update(other)\<close>: \<open>for k, v in other.items(): d[k] = v\<close>\<close>
  "dict_update d other = fold (\<lambda>(k, v). AList.update k v) other d"

fun truthy :: "string option \<Rightarrow> bool" where
  \<comment> \<open>Python's truth value of an optional string: \<open>None\<close> and \<open>""\<close> are false\<close>
  "truthy None = False"
| "truthy (Some s) = (s \<noteq> [])"

fun py_or :: "string option \<Rightarrow> string \<Rightarrow> string" where
  \<comment> \<open>\<open>label or name\<close>\<close>
  "py_or None d = d"
| "py_or (Some s) d = (if s \<noteq> [] then s else d)"

fun py_split :: "char \<Rightarrow> string \<Rightarrow> string list" where
  \<comment> \<open>\<open>s.split(c)\<close> for a one-character separator: never an empty list\<close>
  "py_split c [] = [[]]"
| "py_split c (x # xs) =
     (if x = c then [] # py_split c xs
      else (case py_split c xs of
              [] \<Rightarrow> [[x]]
            | w # ws \<Rightarrow> (x # w) # ws))"

fun py_in :: "string \<Rightarrow> string \<Rightarrow> bool" where
  \<comment> \<open>\<open>sub in s\<close> on strings: \<open>sub\<close> occurs in \<open>s\<close> as a contiguous substring\<close>
  "py_in sub [] = (sub = [])"
| "py_in sub (x # xs) = (take (length sub) (x # xs) = sub \<or> py_in sub xs)"

definition rstrip :: "char \<Rightarrow> string \<Rightarrow> string" where
  \<comment> \<open>\<open>s.rstrip(c)\<close>: every trailing \<open>c\<close> is removed\<close>
  "rstrip c s = rev (dropWhile (\<lambda>x. x = c) (rev s))"

datatype json = JString string | JObject "(string, json) dict"

section \<open>The triple store\<close>

text \<open>
  The RDF library is outside the repository. The converter asks it two things: the
  subjects of a given \<open>rdf:type\<close>, in the store's order, and one value of a predicate for
  a subject. A value is a node; the code uses its \<open>str\<close> and its truth value
  (\<open>str(label) if label else None\<close>), so a node carries both.
\<close>

datatype rdf_type = RDFS_Class | RDFS_Property

datatype predicate = RDFS_label | RDFS_comment | RDFS_subClassOf | RDFS_domain | RDFS_range

datatype node = Node (node_str: string) (node_bool: bool)

record graph =
  g_subjects :: "rdf_type \<Rightarrow> string list"
  g_value :: "string \<Rightarrow> predicate \<Rightarrow> node option"

fun str_if :: "node option \<Rightarrow> string option" where
  \<comment> \<open>\<open>str(x) if x else None\<close>\<close>
  "str_if None = None"
| "str_if (Some n) = (if node_bool n then Some (node_str n) else None)"

definition get_label :: "graph \<Rightarrow> string \<Rightarrow> string option" where
  "get_label g subject = str_if (g_value g subject RDFS_label)"

definition get_comment :: "graph \<Rightarrow> string \<Rightarrow> string option" where
  "get_comment g subject = str_if (g_value g subject RDFS_comment)"

definition get_subclass_of :: "graph \<Rightarrow> string \<Rightarrow> string option" where
  "get_subclass_of g subject = str_if (g_value g subject RDFS_subClassOf)"

definition get_domain :: "graph \<Rightarrow> string \<Rightarrow> string option" where
  "get_domain g subject = str_if (g_value g subject RDFS_domain)"

definition get_range :: "graph \<Rightarrow> string \<Rightarrow> string option" where
  "get_range g subject = str_if (g_value g subject RDFS_range)"

section \<open>Local names\<close>

definition extract_local_name :: "string \<Rightarrow> string" where
  "extract_local_name uri =
     (if CHR ''#'' \<in> set uri then last (py_split CHR ''#'' uri)
      else if CHR ''/'' \<in> set uri then last (py_split CHR ''/'' uri)
      else uri)"

section \<open>The converter's registries\<close>

record prop_ref =
  p_id :: string
  p_label :: "string option"
  p_comment :: "string option"
  p_range :: "string option"

record class_data =
  c_id :: string
  c_label :: string
  c_comment :: "string option"
  c_subClassOf :: "string option"
  c_properties :: "(string, prop_ref) dict"

record prop_data =
  pd_id :: string
  pd_label :: string
  pd_comment :: "string option"
  pd_domain :: "string option"
  pd_range :: "string option"

text \<open>
  The path library is outside the repository. The converter parses a string into a path
  (\<open>Path(s)\<close>) and joins a path with a string (\<open>p / s\<close>). A path is its parts and
  whether it starts at the root. Parsing splits the string at \<open>/\<close> and drops the empty
  parts and the parts \<open>.\<close>, so \<open>./a\<close>, \<open>a//.\<close> and \<open>a\<close> are one path; a part \<open>..\<close>
  stays. Joining with a string that starts with \<open>/\<close> gives the path of that string
  alone. (The library keeps a root of exactly two slashes apart from the root \<open>/\<close>; the
  operating system opens the same file for both, and both are the root here.)
\<close>

datatype posix_path = PosixPath (anchored: bool) (parts: "string list")

definition parse_path :: "string \<Rightarrow> posix_path" where
  "parse_path s =
     PosixPath (s \<noteq> [] \<and> hd s = CHR ''/'')
       (filter (\<lambda>part. part \<noteq> [] \<and> part \<noteq> ''.'') (py_split CHR ''/'' s))"

definition joinpath :: "posix_path \<Rightarrow> string \<Rightarrow> posix_path" where
  \<comment> \<open>\<open>p / s\<close>\<close>
  "joinpath p s =
     (let q = parse_path s
      in if anchored q then q else PosixPath (anchored p) (parts p @ parts q))"

record converter =
  output_dir :: posix_path
  base_uri :: string
  context_base_url :: "string option"
  graph :: graph
  classes :: "(string, class_data) dict"
  properties :: "(string, prop_data) dict"

definition init :: "string \<Rightarrow> string \<Rightarrow> string option \<Rightarrow> graph \<Rightarrow> converter" where
  \<comment> \<open>\<open>__init__\<close>, with the graph that \<open>load_schemas\<close> fills given as it stands after loading\<close>
  "init out base url g =
     \<lparr> output_dir = parse_path out,
       base_uri = base,
       context_base_url = (if truthy url then Some (rstrip CHR ''/'' (the url)) else None),
       graph = g,
       classes = [],
       properties = [] \<rparr>"

definition cim_dir :: "converter \<Rightarrow> posix_path" where
  "cim_dir self = joinpath (output_dir self) ''CIM''"

section \<open>Model extraction\<close>

definition class_entry :: "graph \<Rightarrow> string \<Rightarrow> class_data" where
  "class_entry g class_uri =
     \<lparr> c_id = class_uri,
       c_label = py_or (get_label g class_uri) (extract_local_name class_uri),
       c_comment = get_comment g class_uri,
       c_subClassOf = get_subclass_of g class_uri,
       c_properties = [] \<rparr>"

definition extract_class :: "string \<Rightarrow> converter \<Rightarrow> converter" where
  \<comment> \<open>one iteration of the loop of \<open>extract_classes\<close>\<close>
  "extract_class class_uri self =
     self\<lparr> classes :=
       AList.update (extract_local_name class_uri) (class_entry (graph self) class_uri)
         (classes self) \<rparr>"

definition extract_classes :: "converter \<Rightarrow> converter" where
  "extract_classes self = fold extract_class (g_subjects (graph self) RDFS_Class) self"

definition prop_entry :: "graph \<Rightarrow> string \<Rightarrow> prop_data" where
  "prop_entry g prop_uri =
     \<lparr> pd_id = prop_uri,
       pd_label = py_or (get_label g prop_uri) (extract_local_name prop_uri),
       pd_comment = get_comment g prop_uri,
       pd_domain = get_domain g prop_uri,
       pd_range = get_range g prop_uri \<rparr>"

definition prop_attachment :: "graph \<Rightarrow> string \<Rightarrow> prop_ref" where
  "prop_attachment g prop_uri =
     \<lparr> p_id = prop_uri,
       p_label = get_label g prop_uri,
       p_comment = get_comment g prop_uri,
       p_range = get_range g prop_uri \<rparr>"

definition attach :: "string \<Rightarrow> string \<Rightarrow> prop_ref \<Rightarrow> (string, class_data) dict
    \<Rightarrow> (string, class_data) dict" where
  \<comment> \<open>\<open>classes[domain_class]["properties"][prop_name] = ref\<close>, for a known \<open>domain_class\<close>\<close>
  "attach domain_class prop_name ref cs =
     AList.map_entry domain_class
       (\<lambda>cd. cd\<lparr> c_properties := AList.update prop_name ref (c_properties cd) \<rparr>) cs"

definition extract_property :: "string \<Rightarrow> converter \<Rightarrow> converter" where
  \<comment> \<open>one iteration of the loop of \<open>extract_properties\<close>\<close>
  "extract_property prop_uri self =
     (let g = graph self;
          prop_name = extract_local_name prop_uri;
          domain = get_domain g prop_uri;
          self1 = self\<lparr> properties :=
                    AList.update prop_name (prop_entry g prop_uri) (properties self) \<rparr>
      in if truthy domain then
           (let domain_class = extract_local_name (the domain)
            in if map_of (classes self1) domain_class \<noteq> None then
                 self1\<lparr> classes :=
                   attach domain_class prop_name (prop_attachment g prop_uri) (classes self1) \<rparr>
               else self1)
         else self1)"

definition extract_properties :: "converter \<Rightarrow> converter" where
  "extract_properties self = fold extract_property (g_subjects (graph self) RDFS_Property) self"

section \<open>Inheritance resolution\<close>

text \<open>
  \<open>_get_inherited_properties\<close> passes one mutable \<open>visited\<close> set down its single
  recursive call and never reads it after the call returns, so the set is an argument
  that grows on the way down. The recursion is on the number of registered class names
  not yet visited.
\<close>

function get_inherited_properties ::
  "(string, class_data) dict \<Rightarrow> string \<Rightarrow> string set \<Rightarrow> (string, prop_ref) dict" where
  "get_inherited_properties cs class_name visited =
     (if class_name \<in> visited then []
      else
        (case map_of cs class_name of
           None \<Rightarrow> []
         | Some cd \<Rightarrow>
             (let inherited =
                (case c_subClassOf cd of
                   None \<Rightarrow> []
                 | Some parent_uri \<Rightarrow>
                     if parent_uri \<noteq> [] then
                       dict_update []
                         (get_inherited_properties cs (extract_local_name parent_uri)
                            (insert class_name visited))
                     else [])
              in dict_update inherited (c_properties cd))))"
  by pat_completeness auto
termination
proof (relation "measure (\<lambda>(cs, n, visited). card (fst ` set cs - visited))")
  show "wf (measure (\<lambda>(cs, n, visited). card (fst ` set cs - visited)))"
    by simp
next
  fix cs :: "(string, class_data) dict" and class_name visited cd parent_uri
  assume fresh: "class_name \<notin> visited" and known: "map_of cs class_name = Some cd"
  from known have "class_name \<in> fst ` set cs"
    by (metis domI dom_map_of_conv_image_fst)
  with fresh have "fst ` set cs - insert class_name visited \<subset> fst ` set cs - visited"
    by auto
  then have "card (fst ` set cs - insert class_name visited) < card (fst ` set cs - visited)"
    by (intro psubset_card_mono) auto
  then show "((cs, extract_local_name parent_uri, insert class_name visited),
              (cs, class_name, visited))
             \<in> measure (\<lambda>(cs, n, visited). card (fst ` set cs - visited))"
    by simp
qed

section \<open>Context emission\<close>

definition prefixes :: "converter \<Rightarrow> (string, json) dict" where
  \<comment> \<open>the value of \<open>"@context"\<close> both documents start from\<close>
  "prefixes self =
     [(''cim'', JString (base_uri self)),
      (''xsd'', JString ''http://www.w3.org/2001/XMLSchema#''),
      (''rdf'', JString ''http://www.w3.org/1999/02/22-rdf-syntax-ns#''),
      (''rdfs'', JString ''http://www.w3.org/2000/01/rdf-schema#'')]"

definition build_prop_context :: "prop_ref \<Rightarrow> (string, json) dict" where
  \<comment> \<open>the body of the property loop of \<open>_build_class_context\<close>, up to the last assignment\<close>
  "build_prop_context prop_data =
     (let prop_context = [(''@id'', JString (p_id prop_data))];
          prop_context =
            (if truthy (p_range prop_data) then
               (let range_uri = the (p_range prop_data)
                in if py_in ''XMLSchema'' range_uri then
                     AList.update ''@type''
                       (JString (''xsd:'' @ extract_local_name range_uri)) prop_context
                   else AList.update ''@type'' (JString ''@id'') prop_context)
             else prop_context);
          prop_context =
            (if truthy (p_label prop_data) then
               AList.update ''rdfs:label'' (JString (the (p_label prop_data))) prop_context
             else prop_context);
          prop_context =
            (if truthy (p_comment prop_data) then
               AList.update ''rdfs:comment'' (JString (the (p_comment prop_data))) prop_context
             else prop_context)
      in prop_context)"

definition build_class_context ::
  "converter \<Rightarrow> string \<Rightarrow> class_data \<Rightarrow> (string, prop_ref) dict \<Rightarrow> (string, json) dict" where
  "build_class_context self class_name cd all_properties =
     (let context =
            [(''@context'', JObject (prefixes self)),
             (''@id'', JString (c_id cd)),
             (''@type'', JString ''rdfs:Class''),
             (''rdfs:label'', JString (c_label cd))];
          context =
            (if truthy (c_comment cd) then
               AList.update ''rdfs:comment'' (JString (the (c_comment cd))) context
             else context);
          context =
            (if truthy (c_subClassOf cd) then
               AList.update ''rdfs:subClassOf''
                 (JObject [(''@id'', JString (the (c_subClassOf cd))),
                           (''@type'', JString ''@id'')]) context
             else context)
      in fold (\<lambda>(prop_full_name, prop_data).
                 AList.update (''cim:'' @ prop_full_name) (JObject (build_prop_context prop_data)))
           all_properties context)"

text \<open>
  The file system is outside the repository. It holds directories and files by their
  locations, a location being the list of names from the root. The converter creates a
  directory with its parents (\<open>mkdir(parents=True, exist_ok=True)\<close>) and opens files for
  writing (\<open>open(path, "w")\<close>, then \<open>json.dump\<close>). Both follow the parts of a path from
  the root or from the working directory as the operating system does: \<open>..\<close> goes to the
  parent, any other name on the way must be a directory. Opening for writing creates or
  replaces the file of the last name; it raises \<open>FileNotFoundError\<close> when a directory on
  the way does not exist, and the exception ends the run with the files written so far
  left in place. Creating a directory with its parents creates every missing directory
  on the way; where a file stands on the way it raises \<open>NotADirectoryError\<close> if nothing has
  been created before it and the file is not the last name, and \<open>FileExistsError\<close>
  otherwise. Links, permissions, limits on the length of names, names with a NUL
  character and a full disk are not modelled.
  The serialiser \<open>dump\<close> (Python's \<open>json.dump\<close> with its fixed options) is a parameter.
\<close>

datatype os_error = FileNotFoundError | NotADirectoryError | IsADirectoryError | FileExistsError

record filesystem =
  cwd :: "string list"
  dirs :: "string list set"
  files :: "(string list, string) dict"

definition is_dir :: "filesystem \<Rightarrow> string list \<Rightarrow> bool" where
  "is_dir fs loc = (loc = [] \<or> loc \<in> dirs fs)"

definition is_file :: "filesystem \<Rightarrow> string list \<Rightarrow> bool" where
  "is_file fs loc = (map_of (files fs) loc \<noteq> None)"

definition start_of :: "filesystem \<Rightarrow> posix_path \<Rightarrow> string list" where
  "start_of fs p = (if anchored p then [] else cwd fs)"

fun resolve_dir :: "filesystem \<Rightarrow> string list \<Rightarrow> string list \<Rightarrow> os_error + string list" where
  "resolve_dir fs loc [] = Inr loc"
| "resolve_dir fs loc (name # names) =
     (if name = ''..'' then resolve_dir fs (butlast loc) names
      else if is_dir fs (loc @ [name]) then resolve_dir fs (loc @ [name]) names
      else if is_file fs (loc @ [name]) then Inl NotADirectoryError
      else Inl FileNotFoundError)"

definition open_w :: "filesystem \<Rightarrow> posix_path \<Rightarrow> string \<Rightarrow> os_error + filesystem" where
  \<comment> \<open>\<open>with open(p, "w") as f: f.write(content)\<close>\<close>
  "open_w fs p content =
     (if parts p = [] then Inl IsADirectoryError
      else
        (case resolve_dir fs (start_of fs p) (butlast (parts p)) of
           Inl e \<Rightarrow> Inl e
         | Inr loc \<Rightarrow>
             (let name = last (parts p)
              in if name = ''..'' \<or> is_dir fs (loc @ [name]) then Inl IsADirectoryError
                 else Inr (fs\<lparr> files := AList.update (loc @ [name]) content (files fs) \<rparr>))))"

fun make_dirs ::
  "filesystem \<Rightarrow> bool \<Rightarrow> string list \<Rightarrow> string list \<Rightarrow> (os_error \<times> filesystem) + filesystem" where
  \<comment> \<open>\<open>created\<close>: a directory on the way has been created by this call\<close>
  "make_dirs fs created loc [] = Inr fs"
| "make_dirs fs created loc (name # names) =
     (if name = ''..'' then make_dirs fs created (butlast loc) names
      else if is_dir fs (loc @ [name]) then make_dirs fs created (loc @ [name]) names
      else if is_file fs (loc @ [name]) then
        Inl (if names = [] \<or> created then FileExistsError else NotADirectoryError, fs)
      else make_dirs (fs\<lparr> dirs := insert (loc @ [name]) (dirs fs) \<rparr>) True (loc @ [name]) names)"

definition mkdir_parents :: "filesystem \<Rightarrow> posix_path \<Rightarrow> (os_error \<times> filesystem) + filesystem" where
  \<comment> \<open>\<open>p.mkdir(parents=True, exist_ok=True)\<close>\<close>
  "mkdir_parents fs p = make_dirs fs False (start_of fs p) (parts p)"

definition class_file :: "converter \<Rightarrow> string \<Rightarrow> posix_path" where
  "class_file self class_name = joinpath (cim_dir self) (class_name @ ''.jsonld'')"

definition class_document :: "converter \<Rightarrow> string \<Rightarrow> class_data \<Rightarrow> json" where
  "class_document self class_name cd =
     (let all_properties = get_inherited_properties (classes self) class_name {}
      in JObject (build_class_context self class_name cd all_properties))"

fun write_class_files ::
  "(json \<Rightarrow> string) \<Rightarrow> converter \<Rightarrow> (string, class_data) dict \<Rightarrow> filesystem
    \<Rightarrow> (os_error \<times> filesystem) + filesystem" where
  \<comment> \<open>the loop of \<open>generate_class_contexts\<close>, over the items of \<open>self.classes\<close>\<close>
  "write_class_files dump self [] fs = Inr fs"
| "write_class_files dump self ((class_name, cd) # rest) fs =
     (case open_w fs (class_file self class_name) (dump (class_document self class_name cd)) of
        Inl e \<Rightarrow> Inl (e, fs)
      | Inr fs' \<Rightarrow> write_class_files dump self rest fs')"

definition generate_class_contexts ::
  "(json \<Rightarrow> string) \<Rightarrow> converter \<Rightarrow> filesystem \<Rightarrow> (os_error \<times> filesystem) + filesystem" where
  "generate_class_contexts dump self fs =
     (case mkdir_parents fs (cim_dir self) of
        Inl failed \<Rightarrow> Inl failed
      | Inr fs' \<Rightarrow> write_class_files dump self (classes self) fs')"

definition context_url :: "converter \<Rightarrow> string \<Rightarrow> string" where
  "context_url self class_name =
     (if truthy (context_base_url self) then
        the (context_base_url self) @ ''/CIM/'' @ class_name @ ''.jsonld''
      else ''CIM/'' @ class_name @ ''.jsonld'')"

definition main_entry :: "converter \<Rightarrow> string \<Rightarrow> json" where
  "main_entry self class_name =
     JObject [(''@id'', JString (''cim:'' @ class_name)),
              (''@context'', JString (context_url self class_name))]"

definition main_context :: "converter \<Rightarrow> (string, json) dict" where
  \<comment> \<open>the value of \<open>context["@context"]\<close> when the loop of \<open>generate_main_context\<close> ends\<close>
  "main_context self =
     fold (\<lambda>class_name. AList.update class_name (main_entry self class_name))
       (sort (map fst (classes self))) (prefixes self)"

definition main_document :: "converter \<Rightarrow> json" where
  "main_document self = JObject [(''@context'', JObject (main_context self))]"

definition main_file :: "converter \<Rightarrow> posix_path" where
  "main_file self = joinpath (output_dir self) ''context.jsonld''"

definition generate_main_context ::
  "(json \<Rightarrow> string) \<Rightarrow> converter \<Rightarrow> filesystem \<Rightarrow> (os_error \<times> filesystem) + filesystem" where
  "generate_main_context dump self fs =
     (case open_w fs (main_file self) (dump (main_document self)) of
        Inl e \<Rightarrow> Inl (e, fs)
      | Inr fs' \<Rightarrow> Inr fs')"

definition generate ::
  "(json \<Rightarrow> string) \<Rightarrow> converter \<Rightarrow> filesystem \<Rightarrow> (os_error \<times> filesystem) + filesystem" where
  \<comment> \<open>the two generation steps of \<open>convert\<close>, in its order\<close>
  "generate dump self fs =
     (case generate_class_contexts dump self fs of
        Inl failed \<Rightarrow> Inl failed
      | Inr fs' \<Rightarrow> generate_main_context dump self fs')"

fun outcome :: "(os_error \<times> filesystem) + filesystem \<Rightarrow> os_error option \<times> (string list, string) dict" where
  \<comment> \<open>what a run leaves: the exception that ended it, if any, and the files\<close>
  "outcome (Inl (e, fs)) = (Some e, files fs)"
| "outcome (Inr fs) = (None, files fs)"

definition extract_all :: "converter \<Rightarrow> converter" where
  \<comment> \<open>the two extraction steps of \<open>convert\<close>, in its order\<close>
  "extract_all self = extract_properties (extract_classes self)"

section \<open>The resolver, instrumented and specified\<close>

text \<open>
  The same recursion, returning beside the merged properties the log of the names it
  added to \<open>visited\<close>, in the order of the \<open>visited.add\<close> calls.
\<close>

function get_inherited_properties_log ::
  "(string, class_data) dict \<Rightarrow> string \<Rightarrow> string set
    \<Rightarrow> (string, prop_ref) dict \<times> string list" where
  "get_inherited_properties_log cs class_name visited =
     (if class_name \<in> visited then ([], [])
      else
        (case map_of cs class_name of
           None \<Rightarrow> ([], [class_name])
         | Some cd \<Rightarrow>
             (let r =
                (case c_subClassOf cd of
                   None \<Rightarrow> ([], [])
                 | Some parent_uri \<Rightarrow>
                     if parent_uri \<noteq> [] then
                       apfst (dict_update [])
                         (get_inherited_properties_log cs (extract_local_name parent_uri)
                            (insert class_name visited))
                     else ([], []))
              in (dict_update (fst r) (c_properties cd), class_name # snd r))))"
  by pat_completeness auto
termination
proof (relation "measure (\<lambda>(cs, n, visited). card (fst ` set cs - visited))")
  show "wf (measure (\<lambda>(cs, n, visited). card (fst ` set cs - visited)))"
    by simp
next
  fix cs :: "(string, class_data) dict" and class_name visited cd parent_uri
  assume fresh: "class_name \<notin> visited" and known: "map_of cs class_name = Some cd"
  from known have "class_name \<in> fst ` set cs"
    by (metis domI dom_map_of_conv_image_fst)
  with fresh have "card (fst ` set cs - insert class_name visited) < card (fst ` set cs - visited)"
    by (intro psubset_card_mono) auto
  then show "((cs, extract_local_name parent_uri, insert class_name visited),
              (cs, class_name, visited))
             \<in> measure (\<lambda>(cs, n, visited). card (fst ` set cs - visited))"
    by simp
qed

text \<open>
  The specification's words: the effective property set of a class overlays the
  own-property mappings of its superclass chain, farthest ancestor first. The chain of a
  class is the class, its recorded parent, that class's parent and so on, by local name;
  it ends at a class that records no superclass, at a name that is not registered, and
  at the first name that repeats.
\<close>

definition parent_name :: "(string, class_data) dict \<Rightarrow> string \<Rightarrow> string option" where
  "parent_name cs n =
     (case map_of cs n of
        None \<Rightarrow> None
      | Some cd \<Rightarrow>
          (case c_subClassOf cd of
             None \<Rightarrow> None
           | Some parent_uri \<Rightarrow>
               if parent_uri \<noteq> [] then Some (extract_local_name parent_uri) else None))"

fun walk :: "(string, class_data) dict \<Rightarrow> nat \<Rightarrow> string list \<Rightarrow> string \<Rightarrow> string list" where
  "walk cs 0 seen n = []"
| "walk cs (Suc k) seen n =
     (if n \<in> set seen \<or> map_of cs n = None then []
      else n # (case parent_name cs n of
                  None \<Rightarrow> []
                | Some p \<Rightarrow> walk cs k (n # seen) p))"

definition superclass_chain :: "(string, class_data) dict \<Rightarrow> string \<Rightarrow> string list" where
  "superclass_chain cs n = walk cs (length cs) [] n"

definition own_properties :: "(string, class_data) dict \<Rightarrow> string \<Rightarrow> (string, prop_ref) dict" where
  "own_properties cs n = (case map_of cs n of None \<Rightarrow> [] | Some cd \<Rightarrow> c_properties cd)"

definition overlay :: "(string, class_data) dict \<Rightarrow> string list \<Rightarrow> (string \<rightharpoonup> prop_ref)" where
  \<comment> \<open>the chain lists the class first and the farthest ancestor last\<close>
  "overlay cs chain = foldr (\<lambda>c acc. acc ++ map_of (own_properties cs c)) chain Map.empty"

definition props_distinct :: "(string, class_data) dict \<Rightarrow> bool" where
  \<comment> \<open>what Python's \<open>dict\<close> guarantees of every \<open>"properties"\<close> value: no key twice\<close>
  "props_distinct cs = (\<forall>(n, cd) \<in> set cs. distinct (map fst (c_properties cd)))"

section \<open>Reading documents back\<close>

fun json_get :: "json \<Rightarrow> string \<Rightarrow> json option" where
  \<comment> \<open>the value of a key of a JSON object\<close>
  "json_get (JObject d) k = map_of d k"
| "json_get (JString s) k = None"

fun json_keys :: "json \<Rightarrow> string list" where
  \<comment> \<open>the keys of a JSON object, in the order they are written\<close>
  "json_keys (JObject d) = map fst d"
| "json_keys (JString s) = []"

text \<open>
  A serialiser to run the examples with: compact JSON text, keys in the order of the
  dictionary, no escaping.
\<close>

fun render :: "json \<Rightarrow> string" and render_members :: "(string, json) dict \<Rightarrow> string" where
  "render (JString s) = CHR 0x22 # s @ [CHR 0x22]"
| "render (JObject d) = ''{'' @ render_members d @ ''}''"
| "render_members [] = []"
| "render_members ((k, v) # d) =
     CHR 0x22 # k @ [CHR 0x22] @ '':'' @ render v @ (if d = [] then [] else '','')
       @ render_members d"

section \<open>Example schemas\<close>

text \<open>
  A store given by its triples. Class \<open>B\<close> is a subclass of \<open>A\<close>; \<open>A.name\<close> has an XML
  Schema datatype as range, \<open>B.owner\<close> a class, \<open>B.note\<close> no range; \<open>orphan\<close> has no domain
  and the domain of \<open>lost\<close> is not a class of the store.
\<close>

definition schema_triples :: "((string \<times> predicate) \<times> node) list" where
  "schema_triples =
     [((''http://e#A'', RDFS_label), Node ''Class A'' True),
      ((''http://e#A'', RDFS_comment), Node ''The base class'' True),
      ((''http://e#B'', RDFS_subClassOf), Node ''http://e#A'' True),
      ((''http://e#A.name'', RDFS_domain), Node ''http://e#A'' True),
      ((''http://e#A.name'', RDFS_range), Node ''http://www.w3.org/2001/XMLSchema#string'' True),
      ((''http://e#B.owner'', RDFS_domain), Node ''http://e#B'' True),
      ((''http://e#B.owner'', RDFS_range), Node ''http://e#A'' True),
      ((''http://e#B.note'', RDFS_domain), Node ''http://e#B'' True),
      ((''http://e#lost'', RDFS_domain), Node ''http://e#Nowhere'' True)]"

definition schema_graph :: graph where
  "schema_graph =
     \<lparr> g_subjects =
         (\<lambda>t. case t of
                 RDFS_Class \<Rightarrow> [''http://e#A'', ''http://e#B'']
               | RDFS_Property \<Rightarrow>
                   [''http://e#A.name'', ''http://e#B.owner'', ''http://e#B.note'',
                    ''http://e#orphan'', ''http://e#lost'']),
       g_value = (\<lambda>s p. map_of schema_triples (s, p)) \<rparr>"

definition schema_converter :: converter where
  "schema_converter =
     extract_all (init ''out'' ''http://e#'' (Some ''https://h/c/'') schema_graph)"

text \<open>
  Two class subjects with one local name, and two property subjects with one local name,
  the first without a domain.
\<close>

definition clash_graph :: graph where
  "clash_graph =
     \<lparr> g_subjects =
         (\<lambda>t. case t of
                 RDFS_Class \<Rightarrow> [''http://a#K'', ''http://b#K'']
               | RDFS_Property \<Rightarrow> [''http://a#p'', ''http://b#p'']),
       g_value = (\<lambda>s p. map_of [((''http://b#p'', RDFS_domain), Node ''http://b#K'' True)] (s, p)) \<rparr>"

definition clash_converter :: converter where
  "clash_converter = extract_all (init ''out'' ''http://e#'' None clash_graph)"

text \<open>
  The example schema converted with the base URL \<open>/\<close>, with \<open>https://h/c\<close> and with no
  base URL; and a store whose classes are named \<open>rdf\<close> and \<open>a\<close>.
\<close>

definition slash_converter :: converter where
  "slash_converter = extract_all (init ''out'' ''http://e#'' (Some ''/'') schema_graph)"

definition plain_converter :: converter where
  "plain_converter = extract_all (init ''out'' ''http://e#'' (Some ''https://h/c'') schema_graph)"

definition relative_converter :: converter where
  "relative_converter = extract_all (init ''out'' ''http://e#'' None schema_graph)"

definition rdf_graph :: graph where
  "rdf_graph =
     \<lparr> g_subjects =
         (\<lambda>t. case t of
                 RDFS_Class \<Rightarrow> [''http://e#rdf'', ''http://e#a'']
               | RDFS_Property \<Rightarrow> []),
       g_value = (\<lambda>s p. None) \<rparr>"

definition rdf_converter :: converter where
  "rdf_converter = extract_all (init ''out'' ''http://e#'' None rdf_graph)"

text \<open>
  A store whose classes have the local names \<open>a\<close> and \<open>./a\<close>, a store with a class of
  local name \<open>x/y\<close>, and an output directory that is empty so far.
\<close>

definition dot_graph :: graph where
  "dot_graph =
     \<lparr> g_subjects =
         (\<lambda>t. case t of
                 RDFS_Class \<Rightarrow> [''http://e#a'', ''http://e#./a'']
               | RDFS_Property \<Rightarrow> []),
       g_value = (\<lambda>s p. None) \<rparr>"

definition dot_converter :: converter where
  "dot_converter = extract_all (init ''out'' ''http://e#'' None dot_graph)"

definition nested_graph :: graph where
  "nested_graph =
     \<lparr> g_subjects =
         (\<lambda>t. case t of
                 RDFS_Class \<Rightarrow> [''http://e#x/y'']
               | RDFS_Property \<Rightarrow> []),
       g_value = (\<lambda>s p. None) \<rparr>"

definition nested_converter :: converter where
  "nested_converter = extract_all (init ''out'' ''http://e#'' None nested_graph)"

definition empty_fs :: filesystem where
  "empty_fs = \<lparr> cwd = [''work''], dirs = {[''work'']}, files = [] \<rparr>"

text \<open>
  A working directory that holds the output directory with its \<open>CIM\<close> directory and a
  file \<open>f\<close>.
\<close>

definition file_fs :: filesystem where
  "file_fs =
     \<lparr> cwd = [''work''],
       dirs = {[''work''], [''work'', ''out''], [''work'', ''out'', ''CIM'']},
       files = [([''work'', ''f''], [])] \<rparr>"

text \<open>
  A class whose label is the integer literal \<open>0\<close>, which the RDF library takes as false
  while its string is \<open>0\<close>.
\<close>

definition zero_label_graph :: graph where
  "zero_label_graph =
     \<lparr> g_subjects =
         (\<lambda>t. case t of
                 RDFS_Class \<Rightarrow> [''http://e#A'']
               | RDFS_Property \<Rightarrow> []),
       g_value = (\<lambda>s p. map_of [((''http://e#A'', RDFS_label), Node ''0'' False)] (s, p)) \<rparr>"

definition zero_label_converter :: converter where
  "zero_label_converter = extract_all (init ''out'' ''http://e#'' None zero_label_graph)"

text \<open>
  The example schema with the same triples, its store giving the properties \<open>B.owner\<close>
  and \<open>B.note\<close> in the other order.
\<close>

definition reordered_graph :: graph where
  "reordered_graph =
     schema_graph\<lparr> g_subjects :=
       (\<lambda>t. case t of
               RDFS_Class \<Rightarrow> [''http://e#A'', ''http://e#B'']
             | RDFS_Property \<Rightarrow>
                 [''http://e#A.name'', ''http://e#B.note'', ''http://e#B.owner'',
                  ''http://e#orphan'', ''http://e#lost'']) \<rparr>"

definition reordered_converter :: converter where
  "reordered_converter =
     extract_all (init ''out'' ''http://e#'' (Some ''https://h/c/'') reordered_graph)"

subsection \<open>Example registries\<close>

definition abc_classes :: "(string, class_data) dict" where
  "abc_classes =
     [(''A'', \<lparr> c_id = ''http://e#A'', c_label = ''A'', c_comment = None, c_subClassOf = None,
          c_properties =
            [(''p'', \<lparr> p_id = ''http://e/A#p'', p_label = None, p_comment = None,
                 p_range = Some ''http://www.w3.org/2001/XMLSchema#string'' \<rparr>),
             (''a'', \<lparr> p_id = ''http://e#a'', p_label = None, p_comment = None,
                 p_range = None \<rparr>)] \<rparr>),
      (''B'', \<lparr> c_id = ''http://e#B'', c_label = ''B'', c_comment = None,
          c_subClassOf = Some ''http://e#A'',
          c_properties =
            [(''p'', \<lparr> p_id = ''http://e/B#p'', p_label = None, p_comment = None,
                 p_range = Some ''http://e#A'' \<rparr>),
             (''b'', \<lparr> p_id = ''http://e#b'', p_label = None, p_comment = None,
                 p_range = None \<rparr>)] \<rparr>),
      (''C'', \<lparr> c_id = ''http://e#C'', c_label = ''C'', c_comment = None,
          c_subClassOf = Some ''http://e#B'',
          c_properties =
            [(''c'', \<lparr> p_id = ''http://e#c'', p_label = None, p_comment = None,
                 p_range = None \<rparr>)] \<rparr>)]"

definition xy_classes :: "(string, class_data) dict" where
  "xy_classes =
     [(''X'', \<lparr> c_id = ''http://e#X'', c_label = ''X'', c_comment = None,
          c_subClassOf = Some ''http://e#Y'',
          c_properties =
            [(''x'', \<lparr> p_id = ''http://e#x'', p_label = None, p_comment = None,
                 p_range = None \<rparr>)] \<rparr>),
      (''Y'', \<lparr> c_id = ''http://e#Y'', c_label = ''Y'', c_comment = None,
          c_subClassOf = Some ''http://e#X'',
          c_properties =
            [(''y'', \<lparr> p_id = ''http://e#y'', p_label = None, p_comment = None,
                 p_range = None \<rparr>)] \<rparr>)]"

section \<open>Properties\<close>

subsection \<open>Strings and dictionaries\<close>

lemma py_split_nonempty: "py_split c s \<noteq> []"
  by (induction s) (simp_all split: list.splits)

lemma length_py_split: "length (py_split c s) = Suc (length (filter (\<lambda>x. x = c) s))"
proof (induction s)
  case Nil
  show ?case by simp
next
  case (Cons x xs)
  obtain w ws where "py_split c xs = w # ws"
    using py_split_nonempty [of c xs] by (cases "py_split c xs") simp_all
  with Cons show ?case by simp
qed

lemma py_split_absent: "c \<notin> set s \<Longrightarrow> py_split c s = [s]"
  by (induction s) auto

lemma last_py_split_Cons:
  assumes "c \<in> set xs"
  shows "last (py_split c (x # xs)) = last (py_split c xs)"
proof -
  from assms have "filter (\<lambda>x. x = c) xs \<noteq> []"
    by (simp add: filter_empty_conv)
  then have "2 \<le> length (py_split c xs)"
    by (cases "filter (\<lambda>x. x = c) xs") (simp_all add: length_py_split)
  then obtain w v ws where "py_split c xs = w # v # ws"
    by (cases "py_split c xs"; cases "tl (py_split c xs)") simp_all
  then show ?thesis by simp
qed

lemma last_py_split:
  "last (py_split c (pre @ c # suf)) = (if c \<in> set suf then last (py_split c suf) else suf)"
proof (induction pre)
  case Nil
  show ?case by (simp add: py_split_absent py_split_nonempty)
next
  case (Cons x pre)
  have "c \<in> set (pre @ c # suf)" by simp
  then have "last (py_split c (x # pre @ c # suf)) = last (py_split c (pre @ c # suf))"
    by (rule last_py_split_Cons)
  with Cons show ?case by simp
qed

lemma last_py_split_char:
  assumes "c \<in> set s"
  shows "\<exists>pre. s = pre @ c # last (py_split c s) \<and> c \<notin> set (last (py_split c s))"
proof -
  from assms obtain pre suf where s: "s = pre @ c # suf" and suf: "c \<notin> set suf"
    using split_list_last [of c s] by blast
  then have l: "last (py_split c s) = suf"
    by (simp add: last_py_split)
  have "s = pre @ c # last (py_split c s) \<and> c \<notin> set (last (py_split c s))"
    unfolding l using s suf by simp
  then show ?thesis ..
qed

lemma py_in_iff: "py_in sub s \<longleftrightarrow> (\<exists>p q. s = p @ sub @ q)"
proof (induction s)
  case Nil
  show ?case by auto
next
  case (Cons x xs)
  show ?case
  proof
    assume "py_in sub (x # xs)"
    then consider "take (length sub) (x # xs) = sub" | "py_in sub xs" by auto
    then show "\<exists>p q. x # xs = p @ sub @ q"
    proof cases
      case 1
      then have "x # xs = [] @ sub @ drop (length sub) (x # xs)"
        by (metis append_Nil append_take_drop_id)
      then show ?thesis by blast
    next
      case 2
      then obtain p q where "xs = p @ sub @ q" using Cons by blast
      then have "x # xs = (x # p) @ sub @ q" by simp
      then show ?thesis by blast
    qed
  next
    assume "\<exists>p q. x # xs = p @ sub @ q"
    then obtain p q where pq: "x # xs = p @ sub @ q" by blast
    show "py_in sub (x # xs)"
    proof (cases p)
      case Nil
      with pq have "take (length sub) (x # xs) = sub" by simp
      then show ?thesis by simp
    next
      case (Cons y p')
      with pq have "xs = p' @ sub @ q" by simp
      then have "py_in sub xs" using Cons.IH by blast
      then show ?thesis by simp
    qed
  qed
qed

lemma map_of_dict_update: "map_of (dict_update d other) = map_of d ++ map_of (rev other)"
  unfolding dict_update_def
proof (induction other arbitrary: d)
  case Nil
  show ?case by simp
next
  case (Cons kv other)
  obtain k v where kv: "kv = (k, v)" by (cases kv)
  have "map_of (fold (\<lambda>(k, v). AList.update k v) other (AList.update k v d))
        = map_of (AList.update k v d) ++ map_of (rev other)"
    by (rule Cons.IH)
  then show ?case
    by (simp add: kv AList.update_conv' map_add_upd_left fun_eq_iff map_add_def split: option.splits)
qed

lemma distinct_dict_update: "distinct (map fst d) \<Longrightarrow> distinct (map fst (dict_update d other))"
  unfolding dict_update_def
  by (induction other arbitrary: d) (simp_all add: AList.distinct_update split_beta)

lemma map_of_rev_distinct: "distinct (map fst xs) \<Longrightarrow> map_of (rev xs) = map_of xs"
  by (metis distinct_rev rev_map map_of_inject_set set_rev)

lemma keys_dict_update: "fst ` set (dict_update d other) = fst ` set d \<union> fst ` set other"
  unfolding dict_update_def
  by (induction other arbitrary: d) (auto simp: AList.dom_update split_beta)

subsection \<open>Inheritance resolution\<close>

declare get_inherited_properties.simps [simp del]
declare get_inherited_properties_log.simps [simp del]

lemma gip_visited: "n \<in> V \<Longrightarrow> get_inherited_properties cs n V = []"
  by (subst get_inherited_properties.simps) simp

lemma gip_unknown: "map_of cs n = None \<Longrightarrow> get_inherited_properties cs n V = []"
  by (subst get_inherited_properties.simps) simp

lemma gip_step:
  assumes "n \<notin> V" and "map_of cs n = Some cd"
  shows "get_inherited_properties cs n V =
     dict_update
       (case parent_name cs n of
          None \<Rightarrow> []
        | Some p \<Rightarrow> dict_update [] (get_inherited_properties cs p (insert n V)))
       (c_properties cd)"
  using assms
  by (subst get_inherited_properties.simps) (simp add: parent_name_def split: option.splits)

lemma distinct_gip: "distinct (map fst (get_inherited_properties cs n V))"
proof (cases "n \<in> V \<or> map_of cs n = None")
  case True
  then show ?thesis by (auto simp: gip_visited gip_unknown)
next
  case False
  then obtain cd where "n \<notin> V" "map_of cs n = Some cd" by auto
  then show ?thesis
    by (simp add: gip_step distinct_dict_update split: option.splits)
qed

lemma update_fresh: "k \<notin> fst ` set d \<Longrightarrow> AList.update k v d = d @ [(k, v)]"
  by (induction d) auto

lemma dict_update_append:
  "distinct (map fst (d @ xs)) \<Longrightarrow> dict_update d xs = d @ xs"
proof (induction xs arbitrary: d)
  case Nil
  show ?case by (simp add: dict_update_def)
next
  case (Cons kv xs)
  obtain k v where kv: "kv = (k, v)" by (cases kv)
  from Cons.prems have fresh: "k \<notin> fst ` set d" by (auto simp: kv)
  from Cons.prems have "distinct (map fst ((d @ [(k, v)]) @ xs))" by (simp add: kv)
  then have "dict_update (d @ [(k, v)]) xs = (d @ [(k, v)]) @ xs" by (rule Cons.IH)
  then show ?case
    by (simp add: kv dict_update_def update_fresh [OF fresh])
qed

lemma dict_update_empty: "distinct (map fst xs) \<Longrightarrow> dict_update [] xs = xs"
  using dict_update_append [of "[]" xs] by simp

lemma gip_step':
  assumes "n \<notin> V" and "map_of cs n = Some cd"
  shows "get_inherited_properties cs n V =
     dict_update
       (case parent_name cs n of
          None \<Rightarrow> []
        | Some p \<Rightarrow> get_inherited_properties cs p (insert n V))
       (c_properties cd)"
  using assms by (simp add: gip_step dict_update_empty distinct_gip split: option.splits)

lemma gip_log_fst: "fst (get_inherited_properties_log cs n V) = get_inherited_properties cs n V"
proof (induction cs n V rule: get_inherited_properties.induct)
  case (1 cs n V)
  show ?case
    apply (subst get_inherited_properties_log.simps)
    apply (subst get_inherited_properties.simps)
    using 1 by (auto split: option.splits simp: Let_def)
qed

lemma props_distinctD:
  "props_distinct cs \<Longrightarrow> map_of cs n = Some cd \<Longrightarrow> distinct (map fst (c_properties cd))"
  unfolding props_distinct_def by (auto dest: map_of_SomeD)

lemma overlay_Nil: "overlay cs [] = Map.empty"
  by (simp add: overlay_def)

lemma overlay_Cons: "overlay cs (c # chain) = overlay cs chain ++ map_of (own_properties cs c)"
  by (simp add: overlay_def)

lemma gip_walk:
  "props_distinct cs \<Longrightarrow> card (fst ` set cs - V) \<le> k \<Longrightarrow> set seen = V \<Longrightarrow>
     map_of (get_inherited_properties cs n V) = overlay cs (walk cs k seen n)"
proof (induction cs n V arbitrary: k seen rule: get_inherited_properties.induct)
  case (1 cs n V)
  note pd = "1.prems"(1)
  show ?case
  proof (cases "n \<in> V \<or> map_of cs n = None")
    case True
    then have "get_inherited_properties cs n V = []"
      by (auto simp: gip_visited gip_unknown)
    moreover from True "1.prems"(3) have "walk cs k seen n = []"
      by (cases k) auto
    ultimately show ?thesis by (simp add: overlay_Nil)
  next
    case False
    then obtain cd where fresh: "n \<notin> V" and known: "map_of cs n = Some cd" by auto
    from known have "n \<in> fst ` set cs"
      by (metis domI dom_map_of_conv_image_fst)
    with fresh have nin: "n \<in> fst ` set cs - V" by simp
    then have "card (fst ` set cs - V) \<noteq> 0" by auto
    with "1.prems"(2) obtain k' where k: "k = Suc k'" by (cases k) auto
    have "fst ` set cs - insert n V = (fst ` set cs - V) - {n}"
      by blast
    then have "card (fst ` set cs - insert n V) = card (fst ` set cs - V) - 1"
      using nin by (simp only: card_Diff_singleton)
    moreover have "card (fst ` set cs - V) \<le> Suc k'"
      using "1.prems"(2) by (simp only: k)
    ultimately have bound: "card (fst ` set cs - insert n V) \<le> k'"
      by linarith
    have own: "own_properties cs n = c_properties cd"
      by (simp add: own_properties_def known)
    have dist: "distinct (map fst (c_properties cd))"
      using pd known by (rule props_distinctD)
    show ?thesis
    proof (cases "parent_name cs n")
      case None
      then have "get_inherited_properties cs n V = dict_update [] (c_properties cd)"
        using fresh known by (simp add: gip_step')
      moreover have "walk cs k seen n = [n]"
        using fresh known None "1.prems"(3) by (simp add: k)
      ultimately show ?thesis
        by (simp add: overlay_Cons overlay_Nil own map_of_dict_update map_of_rev_distinct dist)
    next
      case (Some p)
      then obtain parent_uri where sc: "c_subClassOf cd = Some parent_uri"
        and ne: "parent_uri \<noteq> []" and p: "p = extract_local_name parent_uri"
        using known by (auto simp: parent_name_def split: option.splits if_splits)
      have seen': "set (n # seen) = insert n V" using "1.prems"(3) by simp
      have IH: "map_of (get_inherited_properties cs p (insert n V))
                = overlay cs (walk cs k' (n # seen) p)"
        unfolding p using fresh known sc ne pd bound seen' by (rule "1.IH")
      have "get_inherited_properties cs n V
            = dict_update (get_inherited_properties cs p (insert n V)) (c_properties cd)"
        using fresh known Some by (simp add: gip_step')
      moreover have "walk cs k seen n = n # walk cs k' (n # seen) p"
        using fresh known Some "1.prems"(3) by (simp add: k)
      ultimately show ?thesis
        by (simp add: overlay_Cons own map_of_dict_update map_of_rev_distinct dist IH)
    qed
  qed
qed

lemma gip_chain:
  assumes "props_distinct cs"
  shows "map_of (get_inherited_properties cs n {}) = overlay cs (superclass_chain cs n)"
proof -
  have "card (fst ` set cs - {}) \<le> length cs"
    by (metis Diff_empty card_image_le card_length le_trans List.finite_set)
  then show ?thesis
    unfolding superclass_chain_def using assms by (intro gip_walk) simp_all
qed

lemma dom_overlay:
  "dom (overlay cs chain) = (\<Union>c \<in> set chain. fst ` set (own_properties cs c))"
  by (induction chain) (auto simp: overlay_Nil overlay_Cons dom_map_of_conv_image_fst)

lemma overlay_nearest:
  assumes "map_of (own_properties cs c) p = Some d"
    and "\<forall>c' \<in> set pre. map_of (own_properties cs c') p = None"
  shows "overlay cs (pre @ c # rest) p = Some d"
  using assms by (induction pre) (auto simp: overlay_Cons map_add_def split: option.splits)

lemma gip_log_step:
  assumes "n \<notin> V" and "map_of cs n = Some cd"
  shows "snd (get_inherited_properties_log cs n V) =
     n # (case parent_name cs n of
            None \<Rightarrow> []
          | Some p \<Rightarrow> snd (get_inherited_properties_log cs p (insert n V)))"
  using assms
  by (subst get_inherited_properties_log.simps)
     (simp add: parent_name_def Let_def split: option.splits)

lemma gip_log_visited: "n \<in> V \<Longrightarrow> snd (get_inherited_properties_log cs n V) = []"
  by (subst get_inherited_properties_log.simps) simp

lemma gip_log_unknown:
  "n \<notin> V \<Longrightarrow> map_of cs n = None \<Longrightarrow> snd (get_inherited_properties_log cs n V) = [n]"
  by (subst get_inherited_properties_log.simps) simp

lemma gip_log_distinct:
  "distinct (snd (get_inherited_properties_log cs n V)) \<and>
   set (snd (get_inherited_properties_log cs n V)) \<inter> V = {}"
proof (induction cs n V rule: get_inherited_properties.induct)
  case (1 cs n V)
  show ?case
  proof (cases "n \<in> V")
    case True
    then show ?thesis by (simp add: gip_log_visited)
  next
    case fresh: False
    show ?thesis
    proof (cases "map_of cs n")
      case None
      with fresh show ?thesis by (simp add: gip_log_unknown)
    next
      case (Some cd)
      note known = this
      show ?thesis
      proof (cases "parent_name cs n")
        case None
        with fresh known show ?thesis by (simp add: gip_log_step)
      next
        case (Some p)
        then obtain parent_uri where sc: "c_subClassOf cd = Some parent_uri"
          and ne: "parent_uri \<noteq> []" and p: "p = extract_local_name parent_uri"
          using known by (auto simp: parent_name_def split: option.splits if_splits)
        let ?l = "snd (get_inherited_properties_log cs p (insert n V))"
        have IH: "distinct ?l \<and> set ?l \<inter> insert n V = {}"
          unfolding p using fresh known sc ne by (rule "1.IH")
        have "snd (get_inherited_properties_log cs n V) = n # ?l"
          using fresh known Some by (simp add: gip_log_step)
        moreover have "n \<notin> set ?l" using IH by blast
        moreover have "set ?l \<inter> V = {}" using IH by blast
        ultimately show ?thesis using IH fresh by simp
      qed
    qed
  qed
qed

lemma gip_log_length:
  "length (snd (get_inherited_properties_log cs n V)) \<le> Suc (card (fst ` set cs - V))"
proof (induction cs n V rule: get_inherited_properties.induct)
  case (1 cs n V)
  show ?case
  proof (cases "n \<in> V")
    case True
    then show ?thesis by (simp add: gip_log_visited)
  next
    case fresh: False
    show ?thesis
    proof (cases "map_of cs n")
      case None
      with fresh show ?thesis by (simp add: gip_log_unknown)
    next
      case (Some cd)
      note known = this
      from known have "n \<in> fst ` set cs"
        by (metis domI dom_map_of_conv_image_fst)
      with fresh have nin: "n \<in> fst ` set cs - V" by simp
      then have pos: "card (fst ` set cs - V) \<noteq> 0" by auto
      have "fst ` set cs - insert n V = (fst ` set cs - V) - {n}"
        by blast
      then have dec: "card (fst ` set cs - insert n V) = card (fst ` set cs - V) - 1"
        using nin by (simp only: card_Diff_singleton)
      show ?thesis
      proof (cases "parent_name cs n")
        case None
        with fresh known show ?thesis by (simp add: gip_log_step)
      next
        case (Some p)
        then obtain parent_uri where sc: "c_subClassOf cd = Some parent_uri"
          and ne: "parent_uri \<noteq> []" and p: "p = extract_local_name parent_uri"
          using known by (auto simp: parent_name_def split: option.splits if_splits)
        let ?l = "snd (get_inherited_properties_log cs p (insert n V))"
        have IH: "length ?l \<le> Suc (card (fst ` set cs - insert n V))"
          unfolding p using fresh known sc ne by (rule "1.IH")
        have "snd (get_inherited_properties_log cs n V) = n # ?l"
          using fresh known Some by (simp add: gip_log_step)
        then have "length (snd (get_inherited_properties_log cs n V)) = Suc (length ?l)"
          by simp
        with IH dec pos show ?thesis by linarith
      qed
    qed
  qed
qed

lemma set_update_subset: "set (AList.update k v d) \<subseteq> insert (k, v) (set d)"
  by (induction d) auto

lemma set_dict_update: "set (dict_update d other) \<subseteq> set d \<union> set other"
  unfolding dict_update_def
proof (induction other arbitrary: d)
  case Nil
  show ?case by simp
next
  case (Cons kv other)
  obtain k v where kv: "kv = (k, v)" by (cases kv)
  have "set (fold (\<lambda>(k, v). AList.update k v) other (AList.update k v d))
        \<subseteq> set (AList.update k v d) \<union> set other"
    by (rule Cons.IH)
  also have "\<dots> \<subseteq> insert (k, v) (set d) \<union> set other"
    using set_update_subset [of k v d] by blast
  finally show ?case by (simp add: kv)
qed

lemma gip_entries:
  "set (get_inherited_properties cs n V) \<subseteq> (\<Union>(c, cd) \<in> set cs. set (c_properties cd))"
proof (induction cs n V rule: get_inherited_properties.induct)
  case (1 cs n V)
  let ?U = "\<Union>(c, cd) \<in> set cs. set (c_properties cd)"
  show ?case
  proof (cases "n \<in> V \<or> map_of cs n = None")
    case True
    then show ?thesis by (auto simp: gip_visited gip_unknown)
  next
    case False
    then obtain cd where fresh: "n \<notin> V" and known: "map_of cs n = Some cd" by auto
    from known have "(n, cd) \<in> set cs" by (rule map_of_SomeD)
    then have own: "set (c_properties cd) \<subseteq> ?U" by blast
    show ?thesis
    proof (cases "parent_name cs n")
      case None
      then have "get_inherited_properties cs n V = dict_update [] (c_properties cd)"
        using fresh known by (simp add: gip_step')
      then show ?thesis using set_dict_update [of "[]" "c_properties cd"] own by auto
    next
      case (Some p)
      then obtain parent_uri where sc: "c_subClassOf cd = Some parent_uri"
        and ne: "parent_uri \<noteq> []" and p: "p = extract_local_name parent_uri"
        using known by (auto simp: parent_name_def split: option.splits if_splits)
      have IH: "set (get_inherited_properties cs p (insert n V)) \<subseteq> ?U"
        unfolding p using fresh known sc ne by (rule "1.IH")
      have "get_inherited_properties cs n V
            = dict_update (get_inherited_properties cs p (insert n V)) (c_properties cd)"
        using fresh known Some by (simp add: gip_step')
      then show ?thesis
        using set_dict_update [of "get_inherited_properties cs p (insert n V)" "c_properties cd"]
          own IH by auto
    qed
  qed
qed

text \<open>
  C1. The effective property set that the resolver computes for a class is the overlay of
  the own-property mappings of its superclass chain, farthest ancestor first and the
  class's own mapping last. So its names are exactly the names some class of the chain
  declares, and a name resolves to the definition of the nearest class of the chain that
  declares it: a descendant overrides its ancestors.
\<close>

theorem effective_properties_overlay:
  assumes "props_distinct cs"
  shows "map_of (get_inherited_properties cs n {}) = overlay cs (superclass_chain cs n) \<and>
         dom (map_of (get_inherited_properties cs n {}))
           = (\<Union>c \<in> set (superclass_chain cs n). fst ` set (own_properties cs c)) \<and>
         (\<forall>pre c rest p d.
            superclass_chain cs n = pre @ c # rest \<and>
            map_of (own_properties cs c) p = Some d \<and>
            (\<forall>c' \<in> set pre. map_of (own_properties cs c') p = None)
            \<longrightarrow> map_of (get_inherited_properties cs n {}) p = Some d)"
proof -
  have eq: "map_of (get_inherited_properties cs n {}) = overlay cs (superclass_chain cs n)"
    using assms by (rule gip_chain)
  have "dom (overlay cs (superclass_chain cs n))
          = (\<Union>c \<in> set (superclass_chain cs n). fst ` set (own_properties cs c))"
    by (rule dom_overlay)
  moreover have "\<forall>pre c rest p d.
            superclass_chain cs n = pre @ c # rest \<and>
            map_of (own_properties cs c) p = Some d \<and>
            (\<forall>c' \<in> set pre. map_of (own_properties cs c') p = None)
            \<longrightarrow> overlay cs (superclass_chain cs n) p = Some d"
    by (auto simp: overlay_nearest)
  ultimately show ?thesis
    unfolding eq by simp
qed

theorem effective_properties_overlay_witness:
  "props_distinct abc_classes \<and>
   superclass_chain abc_classes ''C'' = [''C'', ''B'', ''A''] \<and>
   dom (map_of (get_inherited_properties abc_classes ''C'' {})) = {''p'', ''a'', ''b'', ''c''} \<and>
   map_of (get_inherited_properties abc_classes ''C'' {}) ''p''
     = Some \<lparr> p_id = ''http://e/B#p'', p_label = None, p_comment = None,
              p_range = Some ''http://e#A'' \<rparr>"
proof -
  have pd: "props_distinct abc_classes"
    by code_simp
  have chain: "superclass_chain abc_classes ''C'' = [''C'', ''B'', ''A'']"
    by code_simp
  note inst = effective_properties_overlay [OF pd, of "''C''", unfolded chain]
  have own: "fst ` set (own_properties abc_classes ''C'') = {''c''}"
       "fst ` set (own_properties abc_classes ''B'') = {''p'', ''b''}"
       "fst ` set (own_properties abc_classes ''A'') = {''p'', ''a''}"
    by (simp_all add: own_properties_def abc_classes_def)
  have "dom (map_of (get_inherited_properties abc_classes ''C'' {}))
          = (\<Union>c \<in> set [''C'', ''B'', ''A'']. fst ` set (own_properties abc_classes c))"
    by (rule inst [THEN conjunct2, THEN conjunct1])
  also have "\<dots> = {''p'', ''a'', ''b'', ''c''}"
    by (auto simp: own)
  finally have d: "dom (map_of (get_inherited_properties abc_classes ''C'' {}))
                     = {''p'', ''a'', ''b'', ''c''}" .
  have p: "map_of (get_inherited_properties abc_classes ''C'' {}) ''p''
     = Some \<lparr> p_id = ''http://e/B#p'', p_label = None, p_comment = None,
              p_range = Some ''http://e#A'' \<rparr>"
  proof (rule inst [THEN conjunct2, THEN conjunct2, rule_format])
    show "[''C'', ''B'', ''A''] = [''C''] @ ''B'' # [''A''] \<and>
          map_of (own_properties abc_classes ''B'') ''p''
            = Some \<lparr> p_id = ''http://e/B#p'', p_label = None, p_comment = None,
                     p_range = Some ''http://e#A'' \<rparr> \<and>
          (\<forall>c' \<in> set [''C'']. map_of (own_properties abc_classes c') ''p'' = None)"
      by (simp add: own_properties_def abc_classes_def)
  qed
  show ?thesis
    by (intro conjI) (rule pd chain d p)+
qed

text \<open>
  C2. One call of the resolver returns for every registry and every class name, with
  cycles and unknown names in the superclass chain: the recursion is on the number of
  registered names not yet visited. A name that is already in the visiting set gives the
  empty mapping, and so does a name that is not registered. The names the call adds to
  the visiting set are pairwise distinct and were not in it before, so each name is
  visited at most once, and there are at most one more of them than registered classes.
  Every entry of the result is an own property of some registered class.
\<close>

theorem resolver_cycle_safe:
  "(n \<in> V \<longrightarrow> get_inherited_properties cs n V = []) \<and>
   (map_of cs n = None \<longrightarrow> get_inherited_properties cs n V = []) \<and>
   fst (get_inherited_properties_log cs n V) = get_inherited_properties cs n V \<and>
   distinct (snd (get_inherited_properties_log cs n V)) \<and>
   set (snd (get_inherited_properties_log cs n V)) \<inter> V = {} \<and>
   length (snd (get_inherited_properties_log cs n V)) \<le> Suc (length cs) \<and>
   set (get_inherited_properties cs n V) \<subseteq> (\<Union>(c, cd) \<in> set cs. set (c_properties cd))"
proof -
  have "card (fst ` set cs - V) \<le> card (fst ` set cs)"
    by (intro card_mono) auto
  also have "\<dots> \<le> length cs"
    by (metis card_image_le card_length le_trans List.finite_set)
  finally have "length (snd (get_inherited_properties_log cs n V)) \<le> Suc (length cs)"
    using gip_log_length [of cs n V] by linarith
  then show ?thesis
    using gip_log_distinct [of cs n V] gip_entries [of cs n V]
    by (simp add: gip_visited gip_unknown gip_log_fst)
qed

theorem resolver_cycle_safe_witness:
  "get_inherited_properties xy_classes ''X'' {''X''} = [] \<and>
   map_of xy_classes ''Z'' = None \<and>
   get_inherited_properties xy_classes ''Z'' {} = [] \<and>
   snd (get_inherited_properties_log xy_classes ''X'' {}) = [''X'', ''Y''] \<and>
   map fst (get_inherited_properties xy_classes ''X'' {}) = [''y'', ''x'']"
proof -
  have visited: "''X'' \<in> {''X''}" by simp
  have unknown: "map_of xy_classes ''Z'' = None" by (simp add: xy_classes_def)
  have log: "get_inherited_properties_log xy_classes ''X'' {} =
     ([(''y'', \<lparr> p_id = ''http://e#y'', p_label = None, p_comment = None, p_range = None \<rparr>),
       (''x'', \<lparr> p_id = ''http://e#x'', p_label = None, p_comment = None, p_range = None \<rparr>)],
      [''X'', ''Y''])"
    by code_simp
  have 1: "get_inherited_properties xy_classes ''X'' {''X''} = []"
    using visited
    by (rule resolver_cycle_safe [of "''X''" "{''X''}" xy_classes, THEN conjunct1, rule_format])
  have 2: "get_inherited_properties xy_classes ''Z'' {} = []"
    using unknown
    by (rule resolver_cycle_safe [of "''Z''" "{}" xy_classes,
          THEN conjunct2, THEN conjunct1, rule_format])
  have "fst (get_inherited_properties_log xy_classes ''X'' {})
          = get_inherited_properties xy_classes ''X'' {}"
    by (rule resolver_cycle_safe [of "''X''" "{}" xy_classes,
          THEN conjunct2, THEN conjunct2, THEN conjunct1])
  then have "get_inherited_properties xy_classes ''X'' {}
          = fst (get_inherited_properties_log xy_classes ''X'' {})" by (rule sym)
  then have 3: "map fst (get_inherited_properties xy_classes ''X'' {}) = [''y'', ''x'']"
    by (simp add: log)
  have 4: "snd (get_inherited_properties_log xy_classes ''X'' {}) = [''X'', ''Y'']"
    by (simp add: log)
  show ?thesis
    by (intro conjI) (rule 1 unknown 2 4 3)+
qed

subsection \<open>Context emission\<close>

lemma map_of_fold_update_other:
  "key \<notin> (\<lambda>kv. f (fst kv)) ` set xs \<Longrightarrow>
   map_of (fold (\<lambda>(k, v). AList.update (f k) (g v)) xs ctx) key = map_of ctx key"
  by (induction xs arbitrary: ctx) (auto simp: AList.update_conv')

lemma map_of_fold_update_hit:
  "distinct (map fst xs) \<Longrightarrow> inj f \<Longrightarrow> map_of xs n = Some v \<Longrightarrow>
   map_of (fold (\<lambda>(k, v). AList.update (f k) (g v)) xs ctx) (f n) = Some (g v)"
proof (induction xs arbitrary: ctx)
  case Nil
  then show ?case by simp
next
  case (Cons kv xs)
  obtain k w where kv: "kv = (k, w)" by (cases kv)
  show ?case
  proof (cases "k = n")
    case True
    with Cons.prems kv have v: "w = v" and notin: "n \<notin> fst ` set xs" by auto
    from notin \<open>inj f\<close> have "f n \<notin> (\<lambda>kv. f (fst kv)) ` set xs"
      by (auto dest: injD)
    then have "map_of (fold (\<lambda>(k, v). AList.update (f k) (g v)) xs (AList.update (f n) (g v) ctx)) (f n)
               = map_of (AList.update (f n) (g v) ctx) (f n)"
      by (rule map_of_fold_update_other)
    then show ?thesis by (simp add: kv True v AList.update_conv')
  next
    case False
    with Cons.prems kv have "distinct (map fst xs)" "map_of xs n = Some v" by auto
    then have "map_of (fold (\<lambda>(k, v). AList.update (f k) (g v)) xs (AList.update (f k) (g w) ctx)) (f n)
               = Some (g v)"
      using \<open>inj f\<close> by (intro Cons.IH)
    then show ?thesis by (simp add: kv)
  qed
qed

lemma map_of_fold_update:
  assumes "distinct (map fst xs)" and "inj f"
  shows "map_of (fold (\<lambda>(k, v). AList.update (f k) (g v)) xs ctx) (f n)
         = (case map_of xs n of None \<Rightarrow> map_of ctx (f n) | Some v \<Rightarrow> Some (g v))"
proof (cases "map_of xs n")
  case None
  then have "n \<notin> fst ` set xs" by (simp add: map_of_eq_None_iff)
  with \<open>inj f\<close> have "f n \<notin> (\<lambda>kv. f (fst kv)) ` set xs"
    by (auto dest: injD)
  then show ?thesis using None by (simp add: map_of_fold_update_other)
next
  case (Some v)
  with assms show ?thesis by (simp add: map_of_fold_update_hit)
qed

lemma inj_cim: "inj (\<lambda>n. ''cim:'' @ n)"
  by (rule injI) simp

lemma class_context_property:
  assumes "distinct (map fst all_properties)"
  shows "map_of (build_class_context self class_name cd all_properties) (''cim:'' @ n)
         = map_option (\<lambda>pd. JObject (build_prop_context pd)) (map_of all_properties n)"
  unfolding build_class_context_def Let_def
  by (subst map_of_fold_update [OF assms inj_cim])
     (simp add: AList.update_conv' split: option.splits)

lemma class_context_other:
  assumes "\<And>n. key \<noteq> ''cim:'' @ n"
  shows "map_of (build_class_context self class_name cd all_properties) key
         = map_of
             (let context =
                    [(''@context'', JObject (prefixes self)),
                     (''@id'', JString (c_id cd)),
                     (''@type'', JString ''rdfs:Class''),
                     (''rdfs:label'', JString (c_label cd))];
                  context =
                    (if truthy (c_comment cd) then
                       AList.update ''rdfs:comment'' (JString (the (c_comment cd))) context
                     else context)
              in (if truthy (c_subClassOf cd) then
                    AList.update ''rdfs:subClassOf''
                      (JObject [(''@id'', JString (the (c_subClassOf cd))),
                                (''@type'', JString ''@id'')]) context
                  else context)) key"
proof -
  have "key \<notin> (\<lambda>kv. ''cim:'' @ fst kv) ` set all_properties"
    using assms by auto
  then show ?thesis
    unfolding build_class_context_def Let_def
    by (rule map_of_fold_update_other)
qed

lemma class_context_fixed:
  "map_of (build_class_context self class_name cd all_properties) ''@id'' = Some (JString (c_id cd))"
  "map_of (build_class_context self class_name cd all_properties) ''@type''
     = Some (JString ''rdfs:Class'')"
  "map_of (build_class_context self class_name cd all_properties) ''rdfs:label''
     = Some (JString (c_label cd))"
  "map_of (build_class_context self class_name cd all_properties) ''rdfs:comment''
     = (if truthy (c_comment cd) then Some (JString (the (c_comment cd))) else None)"
  "map_of (build_class_context self class_name cd all_properties) ''rdfs:subClassOf''
     = (if truthy (c_subClassOf cd)
        then Some (JObject [(''@id'', JString (the (c_subClassOf cd))), (''@type'', JString ''@id'')])
        else None)"
  "map_of (build_class_context self class_name cd all_properties) ''@context''
     = Some (JObject (prefixes self))"
  by (simp_all add: class_context_other Let_def AList.update_conv')

lemma prop_context_id: "map_of (build_prop_context pd) ''@id'' = Some (JString (p_id pd))"
  by (simp add: build_prop_context_def Let_def AList.update_conv')

lemma prop_context_type:
  "map_of (build_prop_context pd) ''@type'' =
     (if truthy (p_range pd) then
        Some (JString (if py_in ''XMLSchema'' (the (p_range pd))
                       then ''xsd:'' @ extract_local_name (the (p_range pd)) else ''@id''))
      else None)"
  by (simp add: build_prop_context_def Let_def AList.update_conv')

subsection \<open>Model extraction\<close>

lemma extract_class_fields [simp]:
  "classes (extract_class u self)
     = AList.update (extract_local_name u) (class_entry (graph self) u) (classes self)"
  "graph (extract_class u self) = graph self"
  "properties (extract_class u self) = properties self"
  "base_uri (extract_class u self) = base_uri self"
  "context_base_url (extract_class u self) = context_base_url self"
  "output_dir (extract_class u self) = output_dir self"
  by (simp_all add: extract_class_def)

lemma fold_extract_class_fields [simp]:
  "graph (fold extract_class us self) = graph self"
  "properties (fold extract_class us self) = properties self"
  "base_uri (fold extract_class us self) = base_uri self"
  "context_base_url (fold extract_class us self) = context_base_url self"
  "output_dir (fold extract_class us self) = output_dir self"
  by (induction us arbitrary: self) simp_all

lemma find_append_first:
  "find P (xs @ ys) = (case find P xs of None \<Rightarrow> find P ys | Some x \<Rightarrow> Some x)"
  by (induction xs) simp_all

lemma fold_extract_class_lookup:
  "map_of (classes (fold extract_class us self)) n =
     (case find (\<lambda>u. extract_local_name u = n) (rev us) of
        None \<Rightarrow> map_of (classes self) n
      | Some u \<Rightarrow> Some (class_entry (graph self) u))"
proof (induction us arbitrary: self)
  case Nil
  show ?case by simp
next
  case (Cons u us)
  show ?case
    by (simp add: Cons.IH find_append_first AList.update_conv' split: option.splits)
qed

lemma fold_extract_class_keys:
  "fst ` set (classes (fold extract_class us self))
     = fst ` set (classes self) \<union> extract_local_name ` set us"
  by (induction us arbitrary: self) (auto simp: AList.dom_update)

lemma fold_extract_class_distinct:
  "distinct (map fst (classes self)) \<Longrightarrow>
   distinct (map fst (classes (fold extract_class us self)))"
  by (induction us arbitrary: self) (simp_all add: AList.distinct_update)

lemma fold_extract_class_entries:
  "(cn, cd) \<in> set (classes (fold extract_class us self)) \<Longrightarrow>
   (cn, cd) \<in> set (classes self) \<or>
   (\<exists>u \<in> set us. cn = extract_local_name u \<and> cd = class_entry (graph self) u)"
proof (induction us arbitrary: self)
  case Nil
  then show ?case by simp
next
  case (Cons u us)
  from Cons.prems have "(cn, cd) \<in> set (classes (fold extract_class us (extract_class u self)))"
    by simp
  then consider "(cn, cd) \<in> set (classes (extract_class u self))"
    | "\<exists>v \<in> set us. cn = extract_local_name v \<and> cd = class_entry (graph self) v"
    using Cons.IH [of "extract_class u self"] by auto
  then show ?case
  proof cases
    case 1
    then have "(cn, cd) \<in> insert (extract_local_name u, class_entry (graph self) u) (set (classes self))"
      using set_update_subset by fastforce
    then show ?thesis by auto
  next
    case 2
    then show ?thesis by auto
  qed
qed

lemma extract_property_fields [simp]:
  "graph (extract_property u self) = graph self"
  "base_uri (extract_property u self) = base_uri self"
  "context_base_url (extract_property u self) = context_base_url self"
  "output_dir (extract_property u self) = output_dir self"
  "properties (extract_property u self)
     = AList.update (extract_local_name u) (prop_entry (graph self) u) (properties self)"
  by (simp_all add: extract_property_def Let_def)

lemma extract_property_classes:
  "classes (extract_property u self) =
     (if truthy (get_domain (graph self) u) \<and>
         map_of (classes self) (extract_local_name (the (get_domain (graph self) u))) \<noteq> None
      then attach (extract_local_name (the (get_domain (graph self) u))) (extract_local_name u)
             (prop_attachment (graph self) u) (classes self)
      else classes self)"
  by (simp add: extract_property_def Let_def)

lemma map_entry_keys: "map fst (AList.map_entry k f xs) = map fst xs"
  by (induction xs) auto

lemma attach_keys: "map fst (attach d pn r cs) = map fst cs"
  by (simp add: attach_def map_entry_keys)

lemma attach_headers:
  "map (\<lambda>(n, cd). (n, c_id cd, c_label cd, c_comment cd, c_subClassOf cd)) (attach d pn r cs)
   = map (\<lambda>(n, cd). (n, c_id cd, c_label cd, c_comment cd, c_subClassOf cd)) cs"
  unfolding attach_def by (induction cs) auto

lemma attach_entries:
  assumes "(cn, cd) \<in> set (attach d pn r cs)" and "(k, v) \<in> set (c_properties cd)"
  shows "(\<exists>cd0. (cn, cd0) \<in> set cs \<and> (k, v) \<in> set (c_properties cd0)) \<or>
         (cn = d \<and> k = pn \<and> v = r)"
  using assms unfolding attach_def
proof (induction cs)
  case Nil
  then show ?case by simp
next
  case (Cons c cs)
  show ?case
  proof (cases "fst c = d")
    case True
    with Cons.prems(1) consider
      "cn = d" "cd = (snd c)\<lparr> c_properties := AList.update pn r (c_properties (snd c)) \<rparr>"
      | "(cn, cd) \<in> set cs" by auto
    then show ?thesis
    proof cases
      case 1
      with Cons.prems(2) have "(k, v) \<in> insert (pn, r) (set (c_properties (snd c)))"
        using set_update_subset by fastforce
      moreover have "(d, snd c) \<in> set (c # cs)" using True by (cases c) auto
      ultimately show ?thesis using 1 by auto
    next
      case 2
      with Cons.prems(2) show ?thesis by auto
    qed
  next
    case False
    with Cons.prems(1) consider "(cn, cd) = c" | "(cn, cd) \<in> set (AList.map_entry d
         (\<lambda>cd. cd\<lparr> c_properties := AList.update pn r (c_properties cd) \<rparr>) cs)"
      by auto
    then show ?thesis
    proof cases
      case 1
      with Cons.prems(2) show ?thesis by auto
    next
      case 2
      then show ?thesis using Cons.IH Cons.prems(2) by auto
    qed
  qed
qed

lemma extract_property_keys: "map fst (classes (extract_property u self)) = map fst (classes self)"
  by (simp add: extract_property_classes attach_keys)

lemma extract_property_headers:
  "map (\<lambda>(n, cd). (n, c_id cd, c_label cd, c_comment cd, c_subClassOf cd))
     (classes (extract_property u self))
   = map (\<lambda>(n, cd). (n, c_id cd, c_label cd, c_comment cd, c_subClassOf cd)) (classes self)"
  by (simp add: extract_property_classes attach_headers)

lemma fold_extract_property_fields [simp]:
  "graph (fold extract_property us self) = graph self"
  "base_uri (fold extract_property us self) = base_uri self"
  "context_base_url (fold extract_property us self) = context_base_url self"
  "output_dir (fold extract_property us self) = output_dir self"
  by (induction us arbitrary: self) simp_all

lemma fold_extract_property_keys:
  "map fst (classes (fold extract_property us self)) = map fst (classes self)"
  by (induction us arbitrary: self) (simp_all add: extract_property_keys)

lemma fold_extract_property_headers:
  "map (\<lambda>(n, cd). (n, c_id cd, c_label cd, c_comment cd, c_subClassOf cd))
     (classes (fold extract_property us self))
   = map (\<lambda>(n, cd). (n, c_id cd, c_label cd, c_comment cd, c_subClassOf cd)) (classes self)"
  by (induction us arbitrary: self) (simp_all add: extract_property_headers)

lemma fold_extract_property_lookup:
  "map_of (properties (fold extract_property us self)) n =
     (case find (\<lambda>u. extract_local_name u = n) (rev us) of
        None \<Rightarrow> map_of (properties self) n
      | Some u \<Rightarrow> Some (prop_entry (graph self) u))"
proof (induction us arbitrary: self)
  case Nil
  show ?case by simp
next
  case (Cons u us)
  show ?case
    by (simp add: Cons.IH find_append_first AList.update_conv' split: option.splits)
qed

lemma extract_property_entries:
  assumes "(cn, cd) \<in> set (classes (extract_property u self))"
    and "(k, v) \<in> set (c_properties cd)"
  shows "(\<exists>cd0. (cn, cd0) \<in> set (classes self) \<and> (k, v) \<in> set (c_properties cd0)) \<or>
         (truthy (get_domain (graph self) u) \<and>
          cn = extract_local_name (the (get_domain (graph self) u)) \<and>
          map_of (classes self) cn \<noteq> None \<and>
          k = extract_local_name u \<and> v = prop_attachment (graph self) u)"
proof (cases "truthy (get_domain (graph self) u) \<and>
         map_of (classes self) (extract_local_name (the (get_domain (graph self) u))) \<noteq> None")
  case True
  then have "classes (extract_property u self) =
       attach (extract_local_name (the (get_domain (graph self) u))) (extract_local_name u)
             (prop_attachment (graph self) u) (classes self)"
    by (simp add: extract_property_classes)
  with assms(1) have "(cn, cd) \<in> set (attach (extract_local_name (the (get_domain (graph self) u)))
       (extract_local_name u) (prop_attachment (graph self) u) (classes self))"
    by simp
  from attach_entries [OF this assms(2)] True show ?thesis by blast
next
  case False
  then have "classes (extract_property u self) = classes self"
    unfolding extract_property_classes by (simp only: if_False)
  with assms show ?thesis by auto
qed

lemma map_of_None_keys: "(map_of xs k = None) = (k \<notin> set (map fst xs))"
  by (simp add: map_of_eq_None_iff)

lemma fold_extract_property_entries:
  "(cn, cd) \<in> set (classes (fold extract_property us self)) \<Longrightarrow>
   (k, v) \<in> set (c_properties cd) \<Longrightarrow>
   (\<exists>cd0. (cn, cd0) \<in> set (classes self) \<and> (k, v) \<in> set (c_properties cd0)) \<or>
   (\<exists>u \<in> set us. truthy (get_domain (graph self) u) \<and>
       cn = extract_local_name (the (get_domain (graph self) u)) \<and>
       map_of (classes self) cn \<noteq> None \<and>
       k = extract_local_name u \<and> v = prop_attachment (graph self) u)"
proof (induction us arbitrary: self)
  case Nil
  then show ?case by auto
next
  case (Cons u us)
  let ?s = "extract_property u self"
  from Cons.prems(1) have "(cn, cd) \<in> set (classes (fold extract_property us ?s))" by simp
  from Cons.IH [OF this Cons.prems(2)]
  consider cd0 where "(cn, cd0) \<in> set (classes ?s)" "(k, v) \<in> set (c_properties cd0)"
    | w where "w \<in> set us" "truthy (get_domain (graph self) w)"
        "cn = extract_local_name (the (get_domain (graph self) w))"
        "map_of (classes ?s) cn \<noteq> None"
        "k = extract_local_name w" "v = prop_attachment (graph self) w"
    by auto
  then show ?case
  proof cases
    case 1
    from extract_property_entries [OF 1] show ?thesis by auto
  next
    case 2
    have "map_of (classes self) cn \<noteq> None"
      using 2(4) by (simp add: map_of_None_keys extract_property_keys)
    with 2 show ?thesis by auto
  qed
qed

lemma attach_props_distinct: "props_distinct cs \<Longrightarrow> props_distinct (attach d pn r cs)"
  unfolding props_distinct_def attach_def
  by (induction cs) (auto simp: AList.distinct_update)

lemma fold_extract_property_props_distinct:
  "props_distinct (classes self) \<Longrightarrow> props_distinct (classes (fold extract_property us self))"
  by (induction us arbitrary: self)
     (simp_all add: extract_property_classes attach_props_distinct)

lemma fold_extract_class_props_empty:
  "\<forall>(cn, cd) \<in> set (classes self). c_properties cd = [] \<Longrightarrow>
   \<forall>(cn, cd) \<in> set (classes (fold extract_class us self)). c_properties cd = []"
proof -
  assume a: "\<forall>(cn, cd) \<in> set (classes self). c_properties cd = []"
  have "c_properties cd = []" if "(cn, cd) \<in> set (classes (fold extract_class us self))" for cn cd
    using fold_extract_class_entries [OF that] a by (auto simp: class_entry_def)
  then show ?thesis by auto
qed

subsection \<open>Class context documents\<close>

lemma class_document_property:
  "json_get (class_document self cn cd) (''cim:'' @ n)
     = map_option (\<lambda>pd. JObject (build_prop_context pd))
         (map_of (get_inherited_properties (classes self) cn {}) n)"
  unfolding class_document_def Let_def json_get.simps
  by (rule class_context_property [OF distinct_gip])

lemma extract_local_name_cases:
  "(CHR ''#'' \<in> set r \<longrightarrow>
      (\<exists>pre. r = pre @ CHR ''#'' # extract_local_name r) \<and>
      CHR ''#'' \<notin> set (extract_local_name r)) \<and>
   (CHR ''#'' \<notin> set r \<and> CHR ''/'' \<in> set r \<longrightarrow>
      (\<exists>pre. r = pre @ CHR ''/'' # extract_local_name r) \<and>
      CHR ''/'' \<notin> set (extract_local_name r)) \<and>
   (CHR ''#'' \<notin> set r \<and> CHR ''/'' \<notin> set r \<longrightarrow> extract_local_name r = r)"
  using last_py_split_char [of "CHR ''#''" r] last_py_split_char [of "CHR ''/''" r]
  by (auto simp: extract_local_name_def)

text \<open>
  C3. The entries of a class context document under the keys \<open>cim:<name>\<close> are exactly
  the rendered properties of the class's effective property set. For a property whose
  descriptor has a (non-empty) range URI, the rendered \<open>@type\<close> is \<open>xsd:\<close> followed by the
  local name of the range when the range contains the substring \<open>XMLSchema\<close>, and \<open>@id\<close>
  for every other range. The local name is what follows the last \<open>#\<close>, else what follows
  the last \<open>/\<close>, else the whole URI.
\<close>

theorem property_type_from_range:
  "json_get (class_document self cn cd) (''cim:'' @ n)
     = map_option (\<lambda>pd. JObject (build_prop_context pd))
         (map_of (get_inherited_properties (classes self) cn {}) n) \<and>
   (\<forall>pd r. p_range pd = Some r \<and> r \<noteq> [] \<longrightarrow>
      json_get (JObject (build_prop_context pd)) ''@type''
        = Some (JString (if py_in ''XMLSchema'' r
                         then ''xsd:'' @ extract_local_name r else ''@id'')) \<and>
      (py_in ''XMLSchema'' r \<longleftrightarrow> (\<exists>a b. r = a @ ''XMLSchema'' @ b)) \<and>
      (CHR ''#'' \<in> set r \<longrightarrow>
         (\<exists>pre. r = pre @ CHR ''#'' # extract_local_name r) \<and>
         CHR ''#'' \<notin> set (extract_local_name r)) \<and>
      (CHR ''#'' \<notin> set r \<and> CHR ''/'' \<in> set r \<longrightarrow>
         (\<exists>pre. r = pre @ CHR ''/'' # extract_local_name r) \<and>
         CHR ''/'' \<notin> set (extract_local_name r)) \<and>
      (CHR ''#'' \<notin> set r \<and> CHR ''/'' \<notin> set r \<longrightarrow> extract_local_name r = r))"
proof (intro conjI allI impI)
  show "json_get (class_document self cn cd) (''cim:'' @ n)
     = map_option (\<lambda>pd. JObject (build_prop_context pd))
         (map_of (get_inherited_properties (classes self) cn {}) n)"
    by (rule class_document_property)
next
  fix pd :: prop_ref and r assume "p_range pd = Some r \<and> r \<noteq> []"
  then show "json_get (JObject (build_prop_context pd)) ''@type''
        = Some (JString (if py_in ''XMLSchema'' r
                         then ''xsd:'' @ extract_local_name r else ''@id''))"
    by (simp add: prop_context_type)
next
  fix r :: string
  show "py_in ''XMLSchema'' r \<longleftrightarrow> (\<exists>a b. r = a @ ''XMLSchema'' @ b)"
    by (rule py_in_iff)
next
  fix r :: string assume "CHR ''#'' \<in> set r"
  then show "\<exists>pre. r = pre @ CHR ''#'' # extract_local_name r"
    using extract_local_name_cases [of r] by blast
next
  fix r :: string assume "CHR ''#'' \<in> set r"
  then show "CHR ''#'' \<notin> set (extract_local_name r)"
    using extract_local_name_cases [of r] by blast
next
  fix r :: string assume "CHR ''#'' \<notin> set r \<and> CHR ''/'' \<in> set r"
  then show "\<exists>pre. r = pre @ CHR ''/'' # extract_local_name r"
    using extract_local_name_cases [of r] by blast
next
  fix r :: string assume "CHR ''#'' \<notin> set r \<and> CHR ''/'' \<in> set r"
  then show "CHR ''/'' \<notin> set (extract_local_name r)"
    using extract_local_name_cases [of r] by blast
next
  fix r :: string assume "CHR ''#'' \<notin> set r \<and> CHR ''/'' \<notin> set r"
  then show "extract_local_name r = r"
    by (simp add: extract_local_name_def)
qed


theorem property_type_from_range_witness:
  "json_get (class_document schema_converter ''B'' (the (map_of (classes schema_converter) ''B'')))
     ''cim:A.name''
     = Some (JObject (build_prop_context
         \<lparr> p_id = ''http://e#A.name'', p_label = None, p_comment = None,
           p_range = Some ''http://www.w3.org/2001/XMLSchema#string'' \<rparr>)) \<and>
   json_get (JObject (build_prop_context
         \<lparr> p_id = ''http://e#A.name'', p_label = None, p_comment = None,
           p_range = Some ''http://www.w3.org/2001/XMLSchema#string'' \<rparr>)) ''@type''
     = Some (JString ''xsd:string'') \<and>
   json_get (JObject (build_prop_context
         \<lparr> p_id = ''http://e#B.owner'', p_label = None, p_comment = None,
           p_range = Some ''http://e#A'' \<rparr>)) ''@type''
     = Some (JString ''@id'')"
proof -
  let ?cd = "the (map_of (classes schema_converter) ''B'')"
  let ?name = "\<lparr> p_id = ''http://e#A.name'', p_label = None, p_comment = None,
           p_range = Some ''http://www.w3.org/2001/XMLSchema#string'' \<rparr>"
  let ?owner = "\<lparr> p_id = ''http://e#B.owner'', p_label = None, p_comment = None,
           p_range = Some ''http://e#A'' \<rparr>"
  note inst = property_type_from_range [of schema_converter "''B''" ?cd "''A.name''"]
  have eff: "map_of (get_inherited_properties (classes schema_converter) ''B'' {}) ''A.name''
               = Some ?name"
    by code_simp
  have 1: "json_get (class_document schema_converter ''B'' ?cd) ''cim:A.name''
             = Some (JObject (build_prop_context ?name))"
    using inst [THEN conjunct1] by (simp add: eff)
  have r1: "p_range ?name = Some ''http://www.w3.org/2001/XMLSchema#string'' \<and>
            ''http://www.w3.org/2001/XMLSchema#string'' \<noteq> []"
    by simp
  have v1: "(if py_in ''XMLSchema'' ''http://www.w3.org/2001/XMLSchema#string''
             then ''xsd:'' @ extract_local_name ''http://www.w3.org/2001/XMLSchema#string''
             else ''@id'') = ''xsd:string''"
    by code_simp
  have 2: "json_get (JObject (build_prop_context ?name)) ''@type'' = Some (JString ''xsd:string'')"
    using inst [THEN conjunct2, rule_format, OF r1, THEN conjunct1] unfolding v1 .
  have r2: "p_range ?owner = Some ''http://e#A'' \<and> ''http://e#A'' \<noteq> []"
    by simp
  have v2: "(if py_in ''XMLSchema'' ''http://e#A''
             then ''xsd:'' @ extract_local_name ''http://e#A'' else ''@id'') = ''@id''"
    by code_simp
  have 3: "json_get (JObject (build_prop_context ?owner)) ''@type'' = Some (JString ''@id'')"
    using inst [THEN conjunct2, rule_format, OF r2, THEN conjunct1] unfolding v2 .
  show ?thesis
    by (intro conjI) (rule 1 2 3)+
qed

text \<open>
  C10. A property of the effective property set whose descriptor has no range (or an
  empty one, which Python also takes as false) is emitted as an object with the key
  \<open>@id\<close> and without the key \<open>@type\<close>: the \<open>@id\<close> type is given only under a range.
\<close>

theorem rangeless_property_untyped:
  "map_of (get_inherited_properties (classes self) cn {}) n = Some pd \<and>
   (p_range pd = None \<or> p_range pd = Some []) \<longrightarrow>
     json_get (class_document self cn cd) (''cim:'' @ n) = Some (JObject (build_prop_context pd)) \<and>
     json_get (JObject (build_prop_context pd)) ''@id'' = Some (JString (p_id pd)) \<and>
     json_get (JObject (build_prop_context pd)) ''@type'' = None"
proof (intro impI conjI)
  assume a: "map_of (get_inherited_properties (classes self) cn {}) n = Some pd \<and>
             (p_range pd = None \<or> p_range pd = Some [])"
  then show "json_get (class_document self cn cd) (''cim:'' @ n)
               = Some (JObject (build_prop_context pd))"
    by (simp only: class_document_property option.map)
  show "json_get (JObject (build_prop_context pd)) ''@id'' = Some (JString (p_id pd))"
    by (simp add: prop_context_id)
  from a have "\<not> truthy (p_range pd)" by auto
  then show "json_get (JObject (build_prop_context pd)) ''@type'' = None"
    by (simp add: prop_context_type)
qed

theorem rangeless_property_untyped_witness:
  "json_get (class_document schema_converter ''B'' (the (map_of (classes schema_converter) ''B'')))
     ''cim:B.note''
     = Some (JObject [(''@id'', JString ''http://e#B.note'')]) \<and>
   json_get (JObject [(''@id'', JString ''http://e#B.note'')]) ''@type'' = None"
proof -
  let ?cd = "the (map_of (classes schema_converter) ''B'')"
  let ?note = "\<lparr> p_id = ''http://e#B.note'', p_label = None, p_comment = None,
                  p_range = None \<rparr>"
  have eff: "map_of (get_inherited_properties (classes schema_converter) ''B'' {}) ''B.note''
               = Some ?note"
    by code_simp
  have render: "build_prop_context ?note = [(''@id'', JString ''http://e#B.note'')]"
    by code_simp
  have hyp: "map_of (get_inherited_properties (classes schema_converter) ''B'' {}) ''B.note''
               = Some ?note \<and> (p_range ?note = None \<or> p_range ?note = Some [])"
    using eff by simp
  note inst = rangeless_property_untyped [of schema_converter "''B''" "''B.note''" ?note ?cd,
      rule_format, OF hyp, unfolded render]
  have 1: "json_get (class_document schema_converter ''B'' ?cd) ''cim:B.note''
             = Some (JObject [(''@id'', JString ''http://e#B.note'')])"
    using inst [THEN conjunct1] by simp
  have 2: "json_get (JObject [(''@id'', JString ''http://e#B.note'')]) ''@type'' = None"
    by (rule inst [THEN conjunct2, THEN conjunct2])
  show ?thesis
    by (intro conjI) (rule 1 2)+
qed

lemma init_fields [simp]:
  "classes (init out base url g) = []"
  "properties (init out base url g) = []"
  "graph (init out base url g) = g"
  "base_uri (init out base url g) = base"
  "output_dir (init out base url g) = parse_path out"
  "context_base_url (init out base url g)
     = (if truthy url then Some (rstrip CHR ''/'' (the url)) else None)"
  by (simp_all add: init_def)

lemma extract_all_unfold:
  "extract_all self =
     fold extract_property (g_subjects (graph self) RDFS_Property)
       (fold extract_class (g_subjects (graph self) RDFS_Class) self)"
  by (simp add: extract_all_def extract_properties_def extract_classes_def)

lemma extract_all_fields [simp]:
  "graph (extract_all self) = graph self"
  "base_uri (extract_all self) = base_uri self"
  "context_base_url (extract_all self) = context_base_url self"
  "output_dir (extract_all self) = output_dir self"
  by (simp_all add: extract_all_unfold)

lemma extract_all_headers:
  "map (\<lambda>(n, cd). (n, c_id cd, c_label cd, c_comment cd, c_subClassOf cd))
     (classes (extract_all self))
   = map (\<lambda>(n, cd). (n, c_id cd, c_label cd, c_comment cd, c_subClassOf cd))
       (classes (fold extract_class (g_subjects (graph self) RDFS_Class) self))"
  by (simp add: extract_all_unfold fold_extract_property_headers)

lemma extracted_class_origin:
  assumes "(cn, cd) \<in> set (classes (extract_all (init out base url g)))"
  shows "\<exists>u \<in> set (g_subjects g RDFS_Class).
           cn = extract_local_name u \<and> c_id cd = u \<and>
           c_label cd = py_or (get_label g u) (extract_local_name u) \<and>
           c_comment cd = get_comment g u \<and>
           c_subClassOf cd = get_subclass_of g u"
proof -
  let ?H = "\<lambda>(n, cd). (n, c_id cd, c_label cd, c_comment cd, c_subClassOf cd)"
  let ?s1 = "fold extract_class (g_subjects g RDFS_Class) (init out base url g)"
  from assms have "?H (cn, cd) \<in> set (map ?H (classes (extract_all (init out base url g))))"
    by (simp only: set_map) (rule imageI)
  then have "?H (cn, cd) \<in> set (map ?H (classes ?s1))"
    by (simp only: extract_all_headers init_fields)
  then obtain c0 where c0: "c0 \<in> set (classes ?s1)" and h: "?H c0 = ?H (cn, cd)"
    by auto
  obtain cn0 cd0 where c0eq: "c0 = (cn0, cd0)" by (cases c0)
  from h c0eq have same: "cn0 = cn" "c_id cd0 = c_id cd" "c_label cd0 = c_label cd"
      "c_comment cd0 = c_comment cd" "c_subClassOf cd0 = c_subClassOf cd"
    by simp_all
  from c0 c0eq have "(cn0, cd0) \<in> set (classes ?s1)" by simp
  from fold_extract_class_entries [OF this]
  obtain u where "u \<in> set (g_subjects g RDFS_Class)" "cn0 = extract_local_name u"
      "cd0 = class_entry g u"
    by auto
  with same show ?thesis
    by (auto simp: class_entry_def)
qed

lemma class_document_fixed:
  "json_get (class_document self cn cd) ''@id'' = Some (JString (c_id cd))"
  "json_get (class_document self cn cd) ''@type'' = Some (JString ''rdfs:Class'')"
  "json_get (class_document self cn cd) ''rdfs:label'' = Some (JString (c_label cd))"
  "json_get (class_document self cn cd) ''rdfs:comment''
     = (if truthy (c_comment cd) then Some (JString (the (c_comment cd))) else None)"
  "json_get (class_document self cn cd) ''rdfs:subClassOf''
     = (if truthy (c_subClassOf cd)
        then Some (JObject [(''@id'', JString (the (c_subClassOf cd))), (''@type'', JString ''@id'')])
        else None)"
  "json_get (class_document self cn cd) ''@context'' = Some (JObject (prefixes self))"
  unfolding class_document_def Let_def json_get.simps
  by (rule class_context_fixed)+

lemma py_or_str_if:
  "py_or (str_if v) d
     = (case v of None \<Rightarrow> d
        | Some n \<Rightarrow> if node_bool n \<and> node_str n \<noteq> [] then node_str n else d)"
  by (cases v) simp_all

lemma truthy_str_if:
  "(if truthy (str_if v) then Some (f (the (str_if v))) else None)
     = (case v of None \<Rightarrow> None
        | Some n \<Rightarrow> if node_bool n \<and> node_str n \<noteq> [] then Some (f (node_str n)) else None)"
  by (cases v) simp_all

lemma class_header_of_store:
  assumes "(cn, cd) \<in> set (classes (extract_all (init out base url g)))"
  shows "\<exists>u \<in> set (g_subjects g RDFS_Class).
           cn = extract_local_name u \<and>
           json_get (class_document (extract_all (init out base url g)) cn cd) ''@id''
             = Some (JString u) \<and>
           json_get (class_document (extract_all (init out base url g)) cn cd) ''@type''
             = Some (JString ''rdfs:Class'') \<and>
           json_get (class_document (extract_all (init out base url g)) cn cd) ''rdfs:label''
             = Some (JString
                 (case g_value g u RDFS_label of
                    None \<Rightarrow> cn
                  | Some n \<Rightarrow> if node_bool n \<and> node_str n \<noteq> [] then node_str n else cn)) \<and>
           json_get (class_document (extract_all (init out base url g)) cn cd) ''rdfs:comment''
             = (case g_value g u RDFS_comment of
                  None \<Rightarrow> None
                | Some n \<Rightarrow>
                    if node_bool n \<and> node_str n \<noteq> [] then Some (JString (node_str n))
                    else None) \<and>
           json_get (class_document (extract_all (init out base url g)) cn cd) ''rdfs:subClassOf''
             = (case g_value g u RDFS_subClassOf of
                  None \<Rightarrow> None
                | Some n \<Rightarrow>
                    if node_bool n \<and> node_str n \<noteq> []
                    then Some (JObject [(''@id'', JString (node_str n)),
                                        (''@type'', JString ''@id'')])
                    else None)"
proof -
  let ?self = "extract_all (init out base url g)"
  from extracted_class_origin [OF assms]
  obtain u where u: "u \<in> set (g_subjects g RDFS_Class)" "cn = extract_local_name u"
      "c_id cd = u" "c_label cd = py_or (get_label g u) (extract_local_name u)"
      "c_comment cd = get_comment g u" "c_subClassOf cd = get_subclass_of g u"
    by blast
  have 1: "json_get (class_document ?self cn cd) ''@id'' = Some (JString u)"
    by (simp add: class_document_fixed u(3))
  have 2: "json_get (class_document ?self cn cd) ''@type'' = Some (JString ''rdfs:Class'')"
    by (simp add: class_document_fixed)
  have 3: "json_get (class_document ?self cn cd) ''rdfs:label''
             = Some (JString
                 (case g_value g u RDFS_label of
                    None \<Rightarrow> cn
                  | Some n \<Rightarrow> if node_bool n \<and> node_str n \<noteq> [] then node_str n else cn))"
    by (simp only: class_document_fixed u(4) get_label_def py_or_str_if u(2) [symmetric])
  have 4: "json_get (class_document ?self cn cd) ''rdfs:comment''
             = (case g_value g u RDFS_comment of
                  None \<Rightarrow> None
                | Some n \<Rightarrow>
                    if node_bool n \<and> node_str n \<noteq> [] then Some (JString (node_str n))
                    else None)"
    by (simp only: class_document_fixed u(5) get_comment_def truthy_str_if)
  have 5: "json_get (class_document ?self cn cd) ''rdfs:subClassOf''
             = (case g_value g u RDFS_subClassOf of
                  None \<Rightarrow> None
                | Some n \<Rightarrow>
                    if node_bool n \<and> node_str n \<noteq> []
                    then Some (JObject [(''@id'', JString (node_str n)),
                                        (''@type'', JString ''@id'')])
                    else None)"
    by (simp only: class_document_fixed u(6) get_subclass_of_def
          truthy_str_if [where f = "\<lambda>s. JObject [(''@id'', JString s), (''@type'', JString ''@id'')]"])
  from u(1) u(2) 1 2 3 4 5 show ?thesis
    by blast
qed

lemma schema_class_headers:
  "json_get (class_document schema_converter ''B'' (the (map_of (classes schema_converter) ''B'')))
     ''rdfs:label'' = Some (JString ''B'')"
  "json_get (class_document schema_converter ''B'' (the (map_of (classes schema_converter) ''B'')))
     ''rdfs:comment'' = None"
  "json_get (class_document schema_converter ''B'' (the (map_of (classes schema_converter) ''B'')))
     ''rdfs:subClassOf''
     = Some (JObject [(''@id'', JString ''http://e#A''), (''@type'', JString ''@id'')])"
  "json_get (class_document schema_converter ''A'' (the (map_of (classes schema_converter) ''A'')))
     ''rdfs:subClassOf'' = None"
  by code_simp+

text \<open>
  C7. The label of a class is read with \<open>str(label) if label else None\<close> and stored as
  \<open>label or class_name\<close>, so a label that is there but counts as false is replaced by the
  local name, as an absent one is. The class \<open>http://e#A\<close> has the label \<open>0\<close>, an integer
  literal, and its context document has \<open>rdfs:label\<close> \<open>A\<close>.
\<close>

theorem false_label_replaced:
  "g_subjects zero_label_graph RDFS_Class = [''http://e#A''] \<and>
   g_value zero_label_graph ''http://e#A'' RDFS_label = Some (Node ''0'' False) \<and>
   get_label zero_label_graph ''http://e#A'' = None \<and>
   map fst (classes zero_label_converter) = [''A''] \<and>
   class_document zero_label_converter ''A'' (the (map_of (classes zero_label_converter) ''A''))
     = JObject
         [(''@context'', JObject
             [(''cim'', JString ''http://e#''),
              (''xsd'', JString ''http://www.w3.org/2001/XMLSchema#''),
              (''rdf'', JString ''http://www.w3.org/1999/02/22-rdf-syntax-ns#''),
              (''rdfs'', JString ''http://www.w3.org/2000/01/rdf-schema#'')]),
          (''@id'', JString ''http://e#A''),
          (''@type'', JString ''rdfs:Class''),
          (''rdfs:label'', JString ''A'')]"
proof (intro conjI)
  show "g_subjects zero_label_graph RDFS_Class = [''http://e#A'']"
    by (simp add: zero_label_graph_def)
  show "g_value zero_label_graph ''http://e#A'' RDFS_label = Some (Node ''0'' False)"
    by (simp add: zero_label_graph_def)
  show "get_label zero_label_graph ''http://e#A'' = None"
    by (simp add: zero_label_graph_def get_label_def)
  show "map fst (classes zero_label_converter) = [''A'']"
    by code_simp
  show "class_document zero_label_converter ''A'' (the (map_of (classes zero_label_converter) ''A''))
     = JObject
         [(''@context'', JObject
             [(''cim'', JString ''http://e#''),
              (''xsd'', JString ''http://www.w3.org/2001/XMLSchema#''),
              (''rdf'', JString ''http://www.w3.org/1999/02/22-rdf-syntax-ns#''),
              (''rdfs'', JString ''http://www.w3.org/2000/01/rdf-schema#'')]),
          (''@id'', JString ''http://e#A''),
          (''@type'', JString ''rdfs:Class''),
          (''rdfs:label'', JString ''A'')]"
    by code_simp
qed

lemma schema_document_A:
  "class_document schema_converter ''A'' (the (map_of (classes schema_converter) ''A'')) =
     JObject
       [(''@context'', JObject
           [(''cim'', JString ''http://e#''),
            (''xsd'', JString ''http://www.w3.org/2001/XMLSchema#''),
            (''rdf'', JString ''http://www.w3.org/1999/02/22-rdf-syntax-ns#''),
            (''rdfs'', JString ''http://www.w3.org/2000/01/rdf-schema#'')]),
        (''@id'', JString ''http://e#A''),
        (''@type'', JString ''rdfs:Class''),
        (''rdfs:label'', JString ''Class A''),
        (''rdfs:comment'', JString ''The base class''),
        (''cim:A.name'', JObject
           [(''@id'', JString ''http://e#A.name''), (''@type'', JString ''xsd:string'')])]"
  by code_simp

subsection \<open>Written files\<close>

lemma extract_all_class_keys:
  "fst ` set (classes (extract_all (init out base url g)))
     = extract_local_name ` set (g_subjects g RDFS_Class)"
proof -
  have "set (map fst (classes (extract_all (init out base url g))))
        = set (map fst (classes (fold extract_class (g_subjects g RDFS_Class)
                 (init out base url g))))"
    by (simp only: extract_all_unfold fold_extract_property_keys
          fold_extract_class_fields init_fields)
  then show ?thesis
    by (simp add: fold_extract_class_keys)
qed

lemma extract_all_class_distinct:
  "distinct (map fst (classes (extract_all (init out base url g))))"
proof -
  have "distinct (map fst (classes (fold extract_class (g_subjects g RDFS_Class)
          (init out base url g))))"
    by (rule fold_extract_class_distinct) simp
  then show ?thesis
    by (simp only: extract_all_unfold fold_extract_property_keys
          fold_extract_class_fields init_fields)
qed

lemma map_of_map_header:
  "map_of (map (\<lambda>(n, cd). (n, h cd)) xs) n = map_option h (map_of xs n)"
  by (induction xs) auto

lemma extracted_class_lookup:
  "map_option (\<lambda>cd. (c_id cd, c_label cd, c_comment cd, c_subClassOf cd))
     (map_of (classes (extract_all (init out base url g))) n)
   = map_option (\<lambda>u. (u, py_or (get_label g u) (extract_local_name u),
                        get_comment g u, get_subclass_of g u))
       (find (\<lambda>u. extract_local_name u = n) (rev (g_subjects g RDFS_Class)))"
proof -
  let ?h = "\<lambda>cd. (c_id cd, c_label cd, c_comment cd, c_subClassOf cd)"
  let ?s1 = "fold extract_class (g_subjects g RDFS_Class) (init out base url g)"
  have "map (\<lambda>(n, cd). (n, ?h cd)) (classes (extract_all (init out base url g)))
        = map (\<lambda>(n, cd). (n, ?h cd)) (classes ?s1)"
    using extract_all_headers [of "init out base url g"] by simp
  then have "map_of (map (\<lambda>(n, cd). (n, ?h cd)) (classes (extract_all (init out base url g)))) n
        = map_of (map (\<lambda>(n, cd). (n, ?h cd)) (classes ?s1)) n"
    by simp
  then have "map_option ?h (map_of (classes (extract_all (init out base url g))) n)
        = map_option ?h (map_of (classes ?s1) n)"
    by (simp only: map_of_map_header)
  also have "\<dots> = map_option (\<lambda>u. (u, py_or (get_label g u) (extract_local_name u),
                        get_comment g u, get_subclass_of g u))
       (find (\<lambda>u. extract_local_name u = n) (rev (g_subjects g RDFS_Class)))"
    by (simp add: fold_extract_class_lookup class_entry_def split: option.splits)
  finally show ?thesis .
qed

lemma extracted_class_id:
  assumes "find (\<lambda>u. extract_local_name u = n) (rev (g_subjects g RDFS_Class)) = Some u"
  shows "\<exists>cd. map_of (classes (extract_all (init out base url g))) n = Some cd \<and> c_id cd = u"
  using extracted_class_lookup [of out base url g n] assms
  by (cases "map_of (classes (extract_all (init out base url g))) n") auto

lemma parse_path_name:
  assumes "CHR ''/'' \<notin> set s" and "s \<noteq> []" and "s \<noteq> ''.''"
  shows "parse_path s = PosixPath False [s]"
proof -
  have "hd s \<in> set s"
    using assms(2) by simp
  then have "hd s \<noteq> CHR ''/''"
    using assms(1) by metis
  then show ?thesis
    using assms by (simp add: parse_path_def py_split_absent)
qed

lemma class_file_plain:
  assumes "CHR ''/'' \<notin> set class_name"
  shows "class_file self class_name
           = PosixPath (anchored (cim_dir self)) (parts (cim_dir self) @ [class_name @ ''.jsonld''])"
proof -
  have "parse_path (class_name @ ''.jsonld'') = PosixPath False [class_name @ ''.jsonld'']"
    using assms by (intro parse_path_name) simp_all
  then show ?thesis
    by (simp add: class_file_def joinpath_def)
qed

lemma class_file_plain_inj:
  assumes "CHR ''/'' \<notin> set n1" and "CHR ''/'' \<notin> set n2"
  shows "class_file self n1 = class_file self n2 \<longleftrightarrow> n1 = n2"
  using assms by (simp add: class_file_plain)

lemma schema_class_files:
  "outcome (generate_class_contexts dump schema_converter empty_fs)
     = (None,
        [([''work'', ''out'', ''CIM'', ''A.jsonld''],
          dump (class_document schema_converter ''A'' (the (map_of (classes schema_converter) ''A'')))),
         ([''work'', ''out'', ''CIM'', ''B.jsonld''],
          dump (class_document schema_converter ''B'' (the (map_of (classes schema_converter) ''B''))))])"
  by code_simp

lemma schema_files:
  "map fst (snd (outcome (generate dump schema_converter empty_fs)))
     = [[''work'', ''out'', ''CIM'', ''A.jsonld''], [''work'', ''out'', ''CIM'', ''B.jsonld''],
        [''work'', ''out'', ''context.jsonld'']]"
  by code_simp

lemma path_examples:
  "parse_path ''./a//./b/../c'' = PosixPath False [''a'', ''b'', ''..'', ''c'']"
  "parse_path ''/a/'' = PosixPath True [''a'']"
  "parse_path [] = PosixPath False []"
  "joinpath (parse_path ''a'') ''b/c'' = PosixPath False [''a'', ''b'', ''c'']"
  "joinpath (parse_path ''a'') ''/b'' = PosixPath True [''b'']"
  by code_simp+

lemma mkdir_examples:
  "outcome (mkdir_parents file_fs (parse_path ''out/CIM'')) = (None, [([''work'', ''f''], [])])"
  "outcome (mkdir_parents file_fs (parse_path ''f/x/CIM''))
     = (Some NotADirectoryError, [([''work'', ''f''], [])])"
  "outcome (mkdir_parents file_fs (parse_path ''f'')) = (Some FileExistsError, [([''work'', ''f''], [])])"
  "outcome (mkdir_parents file_fs (parse_path ''m/../f/b''))
     = (Some FileExistsError, [([''work'', ''f''], [])])"
  "outcome (mkdir_parents file_fs (parse_path ''f/..''))
     = (Some NotADirectoryError, [([''work'', ''f''], [])])"
  by code_simp+

lemma open_examples:
  "open_w file_fs (parse_path ''out/..'') content = Inl IsADirectoryError"
  "open_w file_fs (parse_path ''out'') content = Inl IsADirectoryError"
  "open_w file_fs (parse_path ''nodir/z'') content = Inl FileNotFoundError"
  "open_w file_fs (parse_path ''f/z'') content = Inl NotADirectoryError"
  "open_w file_fs (parse_path ''out/CIM/../../q'') content
     = Inr (file_fs\<lparr> files := [([''work'', ''f''], []), ([''work'', ''q''], content)] \<rparr>)"
  "open_w file_fs (parse_path ''f'') content
     = Inr (file_fs\<lparr> files := [([''work'', ''f''], content)] \<rparr>)"
  by code_simp+

lemma clash_class_files:
  "map fst (classes clash_converter) = [''K''] \<and>
   json_get (class_document clash_converter ''K'' (the (map_of (classes clash_converter) ''K'')))
     ''@id'' = Some (JString ''http://b#K'') \<and>
   outcome (generate_class_contexts dump clash_converter empty_fs)
     = (None,
        [([''work'', ''out'', ''CIM'', ''K.jsonld''],
          dump (class_document clash_converter ''K''
                  (the (map_of (classes clash_converter) ''K''))))])"
  by code_simp

text \<open>
  C8. The file of a class is \<open>self.cim_dir / f"{class_name}.jsonld"\<close>, opened for writing.
  The classes \<open>http://e#a\<close> and \<open>http://e#./a\<close> have the local names \<open>a\<close> and \<open>./a\<close> and both
  are in the registry, each with its own URI; the paths of their files are one path, and
  the run leaves one class context file, which holds the document of the second class.
  For the class \<open>http://e#x/y\<close> alone, opening the file raises \<open>FileNotFoundError\<close> and no
  file is written.
\<close>

theorem class_files_one_path:
  "g_subjects dot_graph RDFS_Class = [''http://e#a'', ''http://e#./a''] \<and>
   map fst (classes dot_converter) = [''a'', ''./a''] \<and>
   map c_id (map snd (classes dot_converter)) = [''http://e#a'', ''http://e#./a''] \<and>
   class_file dot_converter ''a'' = PosixPath False [''out'', ''CIM'', ''a.jsonld''] \<and>
   class_file dot_converter ''./a'' = PosixPath False [''out'', ''CIM'', ''a.jsonld''] \<and>
   outcome (generate_class_contexts dump dot_converter empty_fs)
     = (None,
        [([''work'', ''out'', ''CIM'', ''a.jsonld''],
          dump (class_document dot_converter ''./a''
                  (the (map_of (classes dot_converter) ''./a''))))]) \<and>
   json_get (class_document dot_converter ''./a'' (the (map_of (classes dot_converter) ''./a'')))
     ''@id'' = Some (JString ''http://e#./a'') \<and>
   map fst (classes nested_converter) = [''x/y''] \<and>
   class_file nested_converter ''x/y'' = PosixPath False [''out'', ''CIM'', ''x'', ''y.jsonld''] \<and>
   outcome (generate_class_contexts dump nested_converter empty_fs)
     = (Some FileNotFoundError, [])"
proof (intro conjI)
  show "g_subjects dot_graph RDFS_Class = [''http://e#a'', ''http://e#./a'']"
    by (simp add: dot_graph_def)
  show "map fst (classes dot_converter) = [''a'', ''./a'']"
    by code_simp
  show "map c_id (map snd (classes dot_converter)) = [''http://e#a'', ''http://e#./a'']"
    by code_simp
  show "class_file dot_converter ''a'' = PosixPath False [''out'', ''CIM'', ''a.jsonld'']"
    by code_simp
  show "class_file dot_converter ''./a'' = PosixPath False [''out'', ''CIM'', ''a.jsonld'']"
    by code_simp
  show "outcome (generate_class_contexts dump dot_converter empty_fs)
     = (None,
        [([''work'', ''out'', ''CIM'', ''a.jsonld''],
          dump (class_document dot_converter ''./a''
                  (the (map_of (classes dot_converter) ''./a''))))])"
    by code_simp
  show "json_get (class_document dot_converter ''./a'' (the (map_of (classes dot_converter) ''./a'')))
     ''@id'' = Some (JString ''http://e#./a'')"
    by code_simp
  show "map fst (classes nested_converter) = [''x/y'']"
    by code_simp
  show "class_file nested_converter ''x/y'' = PosixPath False [''out'', ''CIM'', ''x'', ''y.jsonld'']"
    by code_simp
  show "outcome (generate_class_contexts dump nested_converter empty_fs)
     = (Some FileNotFoundError, [])"
    by code_simp
qed

subsection \<open>Properties without a resolvable domain\<close>

lemma extracted_property_origin:
  assumes "(cn, cd) \<in> set (classes (extract_all (init out base url g)))"
    and "(k, v) \<in> set (c_properties cd)"
  shows "\<exists>u \<in> set (g_subjects g RDFS_Property).
           truthy (get_domain g u) \<and>
           cn = extract_local_name (the (get_domain g u)) \<and>
           cn \<in> extract_local_name ` set (g_subjects g RDFS_Class) \<and>
           k = extract_local_name u \<and> v = prop_attachment g u"
proof -
  let ?s1 = "fold extract_class (g_subjects g RDFS_Class) (init out base url g)"
  have empty: "\<forall>(cn, cd) \<in> set (classes ?s1). c_properties cd = []"
    by (rule fold_extract_class_props_empty) simp
  from assms(1) have "(cn, cd) \<in> set (classes (fold extract_property
      (g_subjects g RDFS_Property) ?s1))"
    by (simp add: extract_all_unfold)
  from fold_extract_property_entries [OF this assms(2)] empty
  obtain u where u: "u \<in> set (g_subjects g RDFS_Property)" "truthy (get_domain g u)"
      "cn = extract_local_name (the (get_domain g u))"
      "map_of (classes ?s1) cn \<noteq> None"
      "k = extract_local_name u" "v = prop_attachment g u"
    by fastforce
  from u(4) have "cn \<in> fst ` set (classes ?s1)"
    by (simp add: map_of_eq_None_iff)
  then have "cn \<in> extract_local_name ` set (g_subjects g RDFS_Class)"
    by (simp add: fold_extract_class_keys)
  with u show ?thesis by blast
qed

lemma extracted_property_lookup:
  "map_of (properties (extract_all (init out base url g))) n
     = map_option (prop_entry g)
         (find (\<lambda>u. extract_local_name u = n) (rev (g_subjects g RDFS_Property)))"
  by (simp add: extract_all_unfold fold_extract_property_lookup split: option.splits)

lemma extract_property_unresolved:
  assumes "\<not> truthy (get_domain (graph s) u) \<or>
           extract_local_name (the (get_domain (graph s) u)) \<notin> fst ` set (classes s)"
  shows "classes (extract_property u s) = classes s"
proof -
  from assms have "\<not> (truthy (get_domain (graph s) u) \<and>
      map_of (classes s) (extract_local_name (the (get_domain (graph s) u))) \<noteq> None)"
    by (auto simp: map_of_eq_None_iff)
  then show ?thesis
    unfolding extract_property_classes by (simp only: if_False)
qed


text \<open>
  C4, as stated, fails where two properties share a local name: the global registry is
  keyed by local name, so a property without a domain that is extracted first is
  overwritten by the later one and is no longer recorded. Here \<open>http://a#p\<close> has no
  domain and the registry ends with the descriptor of \<open>http://b#p\<close> alone.
\<close>

theorem unresolved_property_counterexample:
  "''http://a#p'' \<in> set (g_subjects clash_graph RDFS_Property) \<and>
   get_domain clash_graph ''http://a#p'' = None \<and>
   properties clash_converter =
     [(''p'', \<lparr> pd_id = ''http://b#p'', pd_label = ''p'', pd_comment = None,
               pd_domain = Some ''http://b#K'', pd_range = None \<rparr>)]"
proof (intro conjI)
  show "''http://a#p'' \<in> set (g_subjects clash_graph RDFS_Property)"
    by (simp add: clash_graph_def)
  show "get_domain clash_graph ''http://a#p'' = None"
    by (simp add: clash_graph_def get_domain_def)
  show "properties clash_converter =
     [(''p'', \<lparr> pd_id = ''http://b#p'', pd_label = ''p'', pd_comment = None,
               pd_domain = Some ''http://b#K'', pd_range = None \<rparr>)]"
    by code_simp
qed

text \<open>
  C4, amended. Extracting a property whose domain is absent, or whose domain's local name
  is not the local name of a registered class, stores its descriptor in the global
  registry under its local name and leaves every class as it is. After the whole
  extraction the registry has an entry under that local name, which is the property's
  own descriptor when no property extracted later has the same local name. No own-property
  mapping of any class holds a reference with the property's URI, and no property entry
  of any class context document has that URI as \<open>@id\<close>.
\<close>

theorem unresolved_property_dropped:
  assumes self: "self = extract_all (init out base url g)"
    and u: "u \<in> set (g_subjects g RDFS_Property)"
    and unresolved: "\<not> truthy (get_domain g u) \<or>
         extract_local_name (the (get_domain g u))
           \<notin> extract_local_name ` set (g_subjects g RDFS_Class)"
  shows "(\<forall>s. graph s = g \<and> fst ` set (classes s) = extract_local_name ` set (g_subjects g RDFS_Class)
            \<longrightarrow> classes (extract_property u s) = classes s \<and>
                map_of (properties (extract_property u s)) (extract_local_name u)
                  = Some (prop_entry g u)) \<and>
         extract_local_name u \<in> fst ` set (properties self) \<and>
         (find (\<lambda>v. extract_local_name v = extract_local_name u)
              (rev (g_subjects g RDFS_Property)) = Some u
            \<longrightarrow> map_of (properties self) (extract_local_name u) = Some (prop_entry g u)) \<and>
         (\<forall>(cn, cd) \<in> set (classes self). \<forall>(k, v) \<in> set (c_properties cd). p_id v \<noteq> u) \<and>
         (\<forall>(cn, cd) \<in> set (classes self). \<forall>n entry.
            json_get (class_document self cn cd) (''cim:'' @ n) = Some entry
              \<longrightarrow> json_get entry ''@id'' \<noteq> Some (JString u))"
proof -
  have step: "\<forall>s. graph s = g \<and>
        fst ` set (classes s) = extract_local_name ` set (g_subjects g RDFS_Class)
            \<longrightarrow> classes (extract_property u s) = classes s \<and>
                map_of (properties (extract_property u s)) (extract_local_name u)
                  = Some (prop_entry g u)"
  proof (intro allI impI conjI)
    fix s :: converter
    assume s: "graph s = g \<and>
        fst ` set (classes s) = extract_local_name ` set (g_subjects g RDFS_Class)"
    with unresolved have "\<not> truthy (get_domain (graph s) u) \<or>
           extract_local_name (the (get_domain (graph s) u)) \<notin> fst ` set (classes s)"
      by simp
    then show "classes (extract_property u s) = classes s"
      by (rule extract_property_unresolved)
    show "map_of (properties (extract_property u s)) (extract_local_name u)
            = Some (prop_entry g u)"
      using s by (simp add: AList.update_conv')
  qed
  have lookup: "map_of (properties self) n
     = map_option (prop_entry g)
         (find (\<lambda>v. extract_local_name v = n) (rev (g_subjects g RDFS_Property)))" for n
    unfolding self by (rule extracted_property_lookup)
  have "find (\<lambda>v. extract_local_name v = extract_local_name u)
          (rev (g_subjects g RDFS_Property)) \<noteq> None"
    using u by (auto simp: find_None_iff)
  then have "map_of (properties self) (extract_local_name u) \<noteq> None"
    by (simp add: lookup)
  then have recorded: "extract_local_name u \<in> fst ` set (properties self)"
    by (simp add: map_of_eq_None_iff)
  have last: "find (\<lambda>v. extract_local_name v = extract_local_name u)
              (rev (g_subjects g RDFS_Property)) = Some u
            \<longrightarrow> map_of (properties self) (extract_local_name u) = Some (prop_entry g u)"
    by (simp add: lookup)
  have attached: "p_id v \<noteq> u" if "(cn, cd) \<in> set (classes self)"
    and "(k, v) \<in> set (c_properties cd)" for cn cd k v
  proof
    assume eq: "p_id v = u"
    from that obtain w where w: "truthy (get_domain g w)"
        "extract_local_name (the (get_domain g w))
           \<in> extract_local_name ` set (g_subjects g RDFS_Class)"
        "v = prop_attachment g w"
      unfolding self using extracted_property_origin by blast
    from w(3) eq have "w = u" by (simp add: prop_attachment_def)
    with w(1,2) unresolved show False by blast
  qed
  have emitted: "json_get entry ''@id'' \<noteq> Some (JString u)"
    if mem: "(cn, cd) \<in> set (classes self)"
    and entry: "json_get (class_document self cn cd) (''cim:'' @ n) = Some entry"
    for cn cd n entry
  proof -
    from entry obtain pd where pd: "map_of (get_inherited_properties (classes self) cn {}) n = Some pd"
      and e: "entry = JObject (build_prop_context pd)"
      unfolding class_document_property by auto
    from pd have "(n, pd) \<in> set (get_inherited_properties (classes self) cn {})"
      by (rule map_of_SomeD)
    with gip_entries obtain c cd' where "(c, cd') \<in> set (classes self)"
        "(n, pd) \<in> set (c_properties cd')"
      by fastforce
    then have "p_id pd \<noteq> u" by (rule attached)
    then show ?thesis
      unfolding e by (simp add: prop_context_id)
  qed
  from attached have A: "\<forall>(cn, cd) \<in> set (classes self). \<forall>(k, v) \<in> set (c_properties cd). p_id v \<noteq> u"
    by blast
  from emitted have E: "\<forall>(cn, cd) \<in> set (classes self). \<forall>n entry.
            json_get (class_document self cn cd) (''cim:'' @ n) = Some entry
              \<longrightarrow> json_get entry ''@id'' \<noteq> Some (JString u)"
    by blast
  show ?thesis
    by (intro conjI) (rule step recorded last A E)+
qed


theorem unresolved_property_dropped_witness:
  "''http://e#orphan'' \<in> set (g_subjects schema_graph RDFS_Property) \<and>
   \<not> truthy (get_domain schema_graph ''http://e#orphan'') \<and>
   ''orphan'' \<in> fst ` set (properties schema_converter) \<and>
   map_of (properties schema_converter) ''orphan''
     = Some \<lparr> pd_id = ''http://e#orphan'', pd_label = ''orphan'', pd_comment = None,
              pd_domain = None, pd_range = None \<rparr> \<and>
   ''lost'' \<in> fst ` set (properties schema_converter)"
proof -
  have subj: "''http://e#orphan'' \<in> set (g_subjects schema_graph RDFS_Property)"
             "''http://e#lost'' \<in> set (g_subjects schema_graph RDFS_Property)"
    by (simp_all add: schema_graph_def)
  have nodomain: "\<not> truthy (get_domain schema_graph ''http://e#orphan'')"
    by code_simp
  then have un1: "\<not> truthy (get_domain schema_graph ''http://e#orphan'') \<or>
      extract_local_name (the (get_domain schema_graph ''http://e#orphan''))
        \<notin> extract_local_name ` set (g_subjects schema_graph RDFS_Class)"
    by (rule disjI1)
  have "extract_local_name (the (get_domain schema_graph ''http://e#lost''))
          \<notin> set (map extract_local_name (g_subjects schema_graph RDFS_Class))"
    by code_simp
  then have un2: "\<not> truthy (get_domain schema_graph ''http://e#lost'') \<or>
      extract_local_name (the (get_domain schema_graph ''http://e#lost''))
        \<notin> extract_local_name ` set (g_subjects schema_graph RDFS_Class)"
    by simp
  have names: "extract_local_name ''http://e#orphan'' = ''orphan''"
              "extract_local_name ''http://e#lost'' = ''lost''"
    by code_simp+
  have entry: "prop_entry schema_graph ''http://e#orphan''
     = \<lparr> pd_id = ''http://e#orphan'', pd_label = ''orphan'', pd_comment = None,
         pd_domain = None, pd_range = None \<rparr>"
    by code_simp
  have last: "find (\<lambda>v. extract_local_name v = extract_local_name ''http://e#orphan'')
                (rev (g_subjects schema_graph RDFS_Property)) = Some ''http://e#orphan''"
    by code_simp
  note orphan = unresolved_property_dropped [OF schema_converter_def subj(1) un1]
  note lost = unresolved_property_dropped [OF schema_converter_def subj(2) un2]
  have 1: "''orphan'' \<in> fst ` set (properties schema_converter)"
    using orphan [THEN conjunct2, THEN conjunct1] unfolding names .
  have 2: "map_of (properties schema_converter) ''orphan''
     = Some \<lparr> pd_id = ''http://e#orphan'', pd_label = ''orphan'', pd_comment = None,
              pd_domain = None, pd_range = None \<rparr>"
    using orphan [THEN conjunct2, THEN conjunct2, THEN conjunct1, rule_format, OF last]
    unfolding names entry .
  have 3: "''lost'' \<in> fst ` set (properties schema_converter)"
    using lost [THEN conjunct2, THEN conjunct1] unfolding names .
  show ?thesis
    by (intro conjI) (rule subj(1) nodomain 1 2 3)+
qed

subsection \<open>The root context document\<close>


lemma map_of_fold_update_keys:
  "map_of (fold (\<lambda>k. AList.update k (f k)) ks ctx) n
     = (if n \<in> set ks then Some (f n) else map_of ctx n)"
  by (induction ks arbitrary: ctx) (auto simp: AList.update_conv')

lemma main_context_class:
  "n \<in> fst ` set (classes self) \<Longrightarrow> map_of (main_context self) n = Some (main_entry self n)"
  by (simp add: main_context_def map_of_fold_update_keys)

lemma main_document_context:
  "json_get (main_document self) ''@context'' = Some (JObject (main_context self))"
  by (simp add: main_document_def)

lemma dropWhile_replicate: "\<exists>k. xs = replicate k c @ dropWhile (\<lambda>x. x = c) xs"
proof (induction xs)
  case Nil
  show ?case by simp
next
  case (Cons x xs)
  show ?case
  proof (cases "x = c")
    case True
    from Cons obtain k where "xs = replicate k c @ dropWhile (\<lambda>x. x = c) xs" ..
    then have "x # xs = replicate (Suc k) c @ dropWhile (\<lambda>x. x = c) (x # xs)"
      using True by simp
    then show ?thesis ..
  next
    case False
    then have "x # xs = replicate 0 c @ dropWhile (\<lambda>x. x = c) (x # xs)"
      by simp
    then show ?thesis ..
  qed
qed

lemma rstrip_replicate: "\<exists>k. b = rstrip c b @ replicate k c"
proof -
  obtain k where "rev b = replicate k c @ dropWhile (\<lambda>x. x = c) (rev b)"
    using dropWhile_replicate [of "rev b" c] ..
  then have "rev (rev b) = rev (replicate k c @ dropWhile (\<lambda>x. x = c) (rev b))"
    by (rule arg_cong)
  then have "b = rstrip c b @ replicate k c"
    by (simp add: rstrip_def)
  then show ?thesis ..
qed

lemma rstrip_last: "rstrip c b \<noteq> [] \<Longrightarrow> last (rstrip c b) \<noteq> c"
proof -
  assume "rstrip c b \<noteq> []"
  then have d: "dropWhile (\<lambda>x. x = c) (rev b) \<noteq> []"
    by (simp add: rstrip_def)
  then have "hd (dropWhile (\<lambda>x. x = c) (rev b)) \<noteq> c"
    by (rule hd_dropWhile)
  moreover have "last (rstrip c b) = hd (dropWhile (\<lambda>x. x = c) (rev b))"
    unfolding rstrip_def using d by (simp add: last_rev)
  ultimately show ?thesis by simp
qed

lemma context_url_init:
  assumes "context_base_url self = context_base_url (init out base url g)"
  shows "context_url self cn =
     (case url of
        None \<Rightarrow> ''CIM/'' @ cn @ ''.jsonld''
      | Some b \<Rightarrow>
          if rstrip CHR ''/'' b = [] then ''CIM/'' @ cn @ ''.jsonld''
          else rstrip CHR ''/'' b @ ''/CIM/'' @ cn @ ''.jsonld'')"
proof (cases url)
  case None
  then show ?thesis using assms by (simp add: context_url_def)
next
  case (Some b)
  show ?thesis
  proof (cases "b = []")
    case True
    then show ?thesis using assms Some by (simp add: context_url_def rstrip_def)
  next
    case False
    then show ?thesis using assms Some by (simp add: context_url_def)
  qed
qed


lemma fold_update_fresh:
  "distinct ks \<Longrightarrow> set ks \<inter> fst ` set ctx = {} \<Longrightarrow>
   fold (\<lambda>k. AList.update k (f k)) ks ctx = ctx @ map (\<lambda>k. (k, f k)) ks"
proof (induction ks arbitrary: ctx)
  case Nil
  show ?case by simp
next
  case (Cons k ks)
  from Cons.prems have fresh: "k \<notin> fst ` set ctx" by auto
  from Cons.prems have "distinct ks" "set ks \<inter> fst ` set (ctx @ [(k, f k)]) = {}" by auto
  then have "fold (\<lambda>k. AList.update k (f k)) ks (ctx @ [(k, f k)])
             = (ctx @ [(k, f k)]) @ map (\<lambda>k. (k, f k)) ks"
    by (rule Cons.IH)
  then show ?case by (simp add: update_fresh [OF fresh])
qed

lemma main_context_sorted:
  assumes "fst ` set (classes self) \<inter> {''cim'', ''xsd'', ''rdf'', ''rdfs''} = {}"
    and "distinct (map fst (classes self))"
  shows "main_context self
           = prefixes self @ map (\<lambda>n. (n, main_entry self n)) (sort (map fst (classes self)))"
    and "sorted_wrt (<) (sort (map fst (classes self)))"
proof -
  have d: "distinct (sort (map fst (classes self)))"
    using assms(2) by simp
  have "fst ` set (prefixes self) = {''cim'', ''xsd'', ''rdf'', ''rdfs''}"
    by (simp add: prefixes_def)
  then have "set (sort (map fst (classes self))) \<inter> fst ` set (prefixes self) = {}"
    using assms(1) by simp
  with d show "main_context self
           = prefixes self @ map (\<lambda>n. (n, main_entry self n)) (sort (map fst (classes self)))"
    unfolding main_context_def by (rule fold_update_fresh)
  show "sorted_wrt (<) (sort (map fst (classes self)))"
    using d by (simp add: strict_sorted_iff)
qed

text \<open>
  C5. The code sorts the class names and stores each entry under its name in the
  dictionary that already holds the four namespace prefixes. A class whose local name is
  one of \<open>cim\<close>, \<open>xsd\<close>, \<open>rdf\<close>, \<open>rdfs\<close> replaces that prefix where it stands, so its entry
  comes before the entries of the other classes: with the classes \<open>rdf\<close> and \<open>a\<close> the
  entries are written in the order \<open>rdf\<close>, \<open>a\<close>, and the \<open>rdf\<close> prefix is lost.
\<close>

theorem root_context_prefix_clash:
  "main_document rdf_converter =
     JObject
       [(''@context'', JObject
           [(''cim'', JString ''http://e#''),
            (''xsd'', JString ''http://www.w3.org/2001/XMLSchema#''),
            (''rdf'', JObject [(''@id'', JString ''cim:rdf''),
                               (''@context'', JString ''CIM/rdf.jsonld'')]),
            (''rdfs'', JString ''http://www.w3.org/2000/01/rdf-schema#''),
            (''a'', JObject [(''@id'', JString ''cim:a''),
                             (''@context'', JString ''CIM/a.jsonld'')])])]"
  by code_simp

lemma context_url_of_base:
  assumes "self = extract_all (init out base url g)" and "cn \<in> fst ` set (classes self)"
  shows "json_get (main_document self) ''@context'' = Some (JObject (main_context self)) \<and>
         map_of (main_context self) cn
           = Some (JObject [(''@id'', JString (''cim:'' @ cn)),
                            (''@context'', JString (context_url self cn))]) \<and>
         context_url self cn =
           (case url of
              None \<Rightarrow> ''CIM/'' @ cn @ ''.jsonld''
            | Some b \<Rightarrow>
                if rstrip CHR ''/'' b = [] then ''CIM/'' @ cn @ ''.jsonld''
                else rstrip CHR ''/'' b @ ''/CIM/'' @ cn @ ''.jsonld'')"
proof (intro conjI)
  show "json_get (main_document self) ''@context'' = Some (JObject (main_context self))"
    by (rule main_document_context)
  show "map_of (main_context self) cn
           = Some (JObject [(''@id'', JString (''cim:'' @ cn)),
                            (''@context'', JString (context_url self cn))])"
    using assms(2) by (simp add: main_context_class main_entry_def)
  have "context_base_url self = context_base_url (init out base url g)"
    by (simp add: assms(1))
  then show "context_url self cn =
           (case url of
              None \<Rightarrow> ''CIM/'' @ cn @ ''.jsonld''
            | Some b \<Rightarrow>
                if rstrip CHR ''/'' b = [] then ''CIM/'' @ cn @ ''.jsonld''
                else rstrip CHR ''/'' b @ ''/CIM/'' @ cn @ ''.jsonld'')"
    by (rule context_url_init)
qed

lemma schema_context_urls:
  "map_of (main_context plain_converter) ''A''
     = Some (JObject [(''@id'', JString ''cim:A''),
                      (''@context'', JString ''https://h/c/CIM/A.jsonld'')])"
  "map_of (main_context schema_converter) ''A''
     = Some (JObject [(''@id'', JString ''cim:A''),
                      (''@context'', JString ''https://h/c/CIM/A.jsonld'')])"
  "map_of (main_context relative_converter) ''A''
     = Some (JObject [(''@id'', JString ''cim:A''), (''@context'', JString ''CIM/A.jsonld'')])"
  by code_simp+

text \<open>
  C6. The constructor strips the trailing slashes of a base URL that is given and not
  empty, and the root context takes the absolute form only if the stripped URL is not
  empty (\<open>if self.context_base_url\<close>). With the base URL \<open>/\<close> the stripped URL is the empty
  string, so the value for the class \<open>A\<close> is the relative path \<open>CIM/A.jsonld\<close>, where the
  stripped base URL followed by \<open>/CIM/A.jsonld\<close> is \<open>/CIM/A.jsonld\<close>.
\<close>

theorem context_url_slash_base:
  "context_base_url slash_converter = Some [] \<and>
   map_of (main_context slash_converter) ''A''
     = Some (JObject [(''@id'', JString ''cim:A''), (''@context'', JString ''CIM/A.jsonld'')]) \<and>
   rstrip CHR ''/'' ''/'' @ ''/CIM/'' @ ''A'' @ ''.jsonld'' = ''/CIM/A.jsonld''"
proof (intro conjI)
  show "context_base_url slash_converter = Some []"
    by code_simp
  show "map_of (main_context slash_converter) ''A''
     = Some (JObject [(''@id'', JString ''cim:A''), (''@context'', JString ''CIM/A.jsonld'')])"
    by code_simp
  show "rstrip CHR ''/'' ''/'' @ ''/CIM/'' @ ''A'' @ ''.jsonld'' = ''/CIM/A.jsonld''"
    by code_simp
qed

lemma main_entry_cong:
  "context_base_url s1 = context_base_url s2 \<Longrightarrow> main_entry s1 = main_entry s2"
  by (simp add: main_entry_def context_url_def fun_eq_iff cong: if_cong)

lemma main_document_order:
  assumes "distinct (map fst (classes s1))" and "distinct (map fst (classes s2))"
    and "fst ` set (classes s1) = fst ` set (classes s2)"
    and "base_uri s1 = base_uri s2" and "context_base_url s1 = context_base_url s2"
  shows "main_document s1 = main_document s2"
proof -
  have "sort (map fst (classes s1)) = sort (map fst (classes s2))"
    using assms(1-3) by (intro sorted_distinct_set_unique) simp_all
  moreover have "main_entry s1 = main_entry s2"
    using assms(5) by (rule main_entry_cong)
  moreover have "prefixes s1 = prefixes s2"
    using assms(4) by (simp add: prefixes_def)
  ultimately show ?thesis
    by (simp add: main_document_def main_context_def)
qed

subsection \<open>Generation and the order of the store\<close>

lemma class_document_cong:
  assumes "classes s1 = classes s2" and "base_uri s1 = base_uri s2"
  shows "class_document s1 = class_document s2"
  using assms
  by (simp add: class_document_def build_class_context_def prefixes_def fun_eq_iff)

lemma main_document_cong:
  assumes "classes s1 = classes s2" and "base_uri s1 = base_uri s2"
    and "context_base_url s1 = context_base_url s2"
  shows "main_document s1 = main_document s2"
  using assms(1,2) main_entry_cong [OF assms(3)]
  by (simp add: main_document_def main_context_def prefixes_def)

lemma main_document_enumeration:
  assumes "set (g_subjects g1 RDFS_Class) = set (g_subjects g2 RDFS_Class)"
  shows "main_document (extract_all (init out1 base url g1))
           = main_document (extract_all (init out2 base url g2))"
proof (rule main_document_order)
  show "distinct (map fst (classes (extract_all (init out1 base url g1))))"
    by (rule extract_all_class_distinct)
  show "distinct (map fst (classes (extract_all (init out2 base url g2))))"
    by (rule extract_all_class_distinct)
  show "fst ` set (classes (extract_all (init out1 base url g1)))
          = fst ` set (classes (extract_all (init out2 base url g2)))"
    by (simp only: extract_all_class_keys assms)
  show "base_uri (extract_all (init out1 base url g1))
          = base_uri (extract_all (init out2 base url g2))"
    by simp
  show "context_base_url (extract_all (init out1 base url g1))
          = context_base_url (extract_all (init out2 base url g2))"
    by simp
qed

text \<open>
  C9. The class context documents depend on the order in which the store gives the
  property subjects: a class's own properties are kept in the order of their attachment
  and written in that order, where the root context is written from the sorted class
  names. The two stores hold the same triples and give the same subjects; the second
  gives \<open>B.note\<close> before \<open>B.owner\<close>. The context documents of class \<open>B\<close> differ in the
  order of their keys, which is the order in which they are written; the root context
  documents are equal.
\<close>

theorem class_context_order_of_store:
  "g_value reordered_graph = g_value schema_graph \<and>
   g_subjects reordered_graph RDFS_Class = g_subjects schema_graph RDFS_Class \<and>
   set (g_subjects reordered_graph RDFS_Property) = set (g_subjects schema_graph RDFS_Property) \<and>
   distinct (g_subjects reordered_graph RDFS_Property) \<and>
   distinct (g_subjects schema_graph RDFS_Property) \<and>
   json_keys (class_document schema_converter ''B'' (the (map_of (classes schema_converter) ''B'')))
     = [''@context'', ''@id'', ''@type'', ''rdfs:label'', ''rdfs:subClassOf'',
        ''cim:A.name'', ''cim:B.owner'', ''cim:B.note''] \<and>
   json_keys (class_document reordered_converter ''B''
       (the (map_of (classes reordered_converter) ''B'')))
     = [''@context'', ''@id'', ''@type'', ''rdfs:label'', ''rdfs:subClassOf'',
        ''cim:A.name'', ''cim:B.note'', ''cim:B.owner''] \<and>
   class_document reordered_converter ''B'' (the (map_of (classes reordered_converter) ''B''))
     \<noteq> class_document schema_converter ''B'' (the (map_of (classes schema_converter) ''B'')) \<and>
   main_document reordered_converter = main_document schema_converter"
proof (intro conjI)
  show "g_value reordered_graph = g_value schema_graph"
    by (simp add: reordered_graph_def)
  show "g_subjects reordered_graph RDFS_Class = g_subjects schema_graph RDFS_Class"
    by (simp add: reordered_graph_def schema_graph_def)
  show "set (g_subjects reordered_graph RDFS_Property) = set (g_subjects schema_graph RDFS_Property)"
    by (simp add: reordered_graph_def schema_graph_def insert_commute)
  show "distinct (g_subjects reordered_graph RDFS_Property)"
    by (simp add: reordered_graph_def)
  show "distinct (g_subjects schema_graph RDFS_Property)"
    by (simp add: schema_graph_def)
  show "json_keys (class_document schema_converter ''B'' (the (map_of (classes schema_converter) ''B'')))
     = [''@context'', ''@id'', ''@type'', ''rdfs:label'', ''rdfs:subClassOf'',
        ''cim:A.name'', ''cim:B.owner'', ''cim:B.note'']"
    by code_simp
  show k2: "json_keys (class_document reordered_converter ''B''
       (the (map_of (classes reordered_converter) ''B'')))
     = [''@context'', ''@id'', ''@type'', ''rdfs:label'', ''rdfs:subClassOf'',
        ''cim:A.name'', ''cim:B.note'', ''cim:B.owner'']"
    by code_simp
  show "class_document reordered_converter ''B'' (the (map_of (classes reordered_converter) ''B''))
     \<noteq> class_document schema_converter ''B'' (the (map_of (classes schema_converter) ''B''))"
    by code_simp
  show "main_document reordered_converter = main_document schema_converter"
    by code_simp
qed

subsection \<open>The extracted registry is a well-formed dictionary\<close>

lemma extract_all_props_distinct: "props_distinct (classes (extract_all (init out base url g)))"
proof -
  let ?s1 = "fold extract_class (g_subjects g RDFS_Class) (init out base url g)"
  have "\<forall>(cn, cd) \<in> set (classes ?s1). c_properties cd = []"
    by (rule fold_extract_class_props_empty) simp
  then have "props_distinct (classes ?s1)"
    by (auto simp: props_distinct_def)
  then show ?thesis
    by (simp add: extract_all_unfold fold_extract_property_props_distinct)
qed

lemma extracted_effective_properties:
  "map_of (get_inherited_properties (classes (extract_all (init out base url g))) n {})
     = overlay (classes (extract_all (init out base url g)))
         (superclass_chain (classes (extract_all (init out base url g))) n)"
  using extract_all_props_distinct by (rule gip_chain)

end
